theory Spec2Isabelle
  imports Main
begin

section \<open>EntityCollection: the observable keyed collection\<close>

text \<open>
  Source: the file \<^verbatim>\<open>EntityCollection.js\<close>, kept in the sources at hand as the
  last document of \<^verbatim>\<open>packages/engine/Source/Scene/ArcGisMapServerImageryProvider.js\<close>.

  Every failure of the collection and of the transform node is a
  \<^verbatim>\<open>DeveloperError\<close> with a message.
\<close>

datatype developerError = DeveloperError string

text \<open>
  Modelled from the spec: \<^verbatim>\<open>Core/AssociativeArray.js\<close> is not among the sources. The
  specification describes the entity mapping and the three staging sets as mappings from
  id to entity with unique keys, observed in insertion order. An array is the list of its
  (key, value) pairs in insertion order: \<open>set\<close> of a key that already holds the same
  value changes nothing, \<open>set\<close> otherwise drops the key and appends the pair,
  \<open>remove\<close> reports whether the key was there, \<open>values\<close> is the list of values.
\<close>

type_synonym 'v associativeArray = "(string \<times> 'v) list"

definition aaContains :: "string \<Rightarrow> 'v associativeArray \<Rightarrow> bool" where
  "aaContains key a = (map_of a key \<noteq> None)"

definition aaGet :: "string \<Rightarrow> 'v associativeArray \<Rightarrow> 'v option" where
  "aaGet key a = map_of a key"

definition aaValues :: "'v associativeArray \<Rightarrow> 'v list" where
  "aaValues a = map snd a"

definition aaRemove :: "string \<Rightarrow> 'v associativeArray \<Rightarrow> bool \<times> 'v associativeArray" where
  "aaRemove key a =
     (if aaContains key a then (True, filter (\<lambda>kv. fst kv \<noteq> key) a) else (False, a))"

definition aaSet :: "string \<Rightarrow> 'v \<Rightarrow> 'v associativeArray \<Rightarrow> 'v associativeArray" where
  "aaSet key v a =
     (if map_of a key = Some v then a else snd (aaRemove key a) @ [(key, v)])"

definition aaRemoveAll :: "'v associativeArray \<Rightarrow> 'v associativeArray" where
  "aaRemoveAll a = []"

text \<open>
  Modelled from the spec: \<^verbatim>\<open>JulianDate\<close> and \<^verbatim>\<open>TimeInterval\<close> are not among the
  sources. An instant is an integer on a linear time scale, so that
  \<^verbatim>\<open>JulianDate.lessThan\<close>, \<^verbatim>\<open>greaterThan\<close> and \<^verbatim>\<open>equals\<close> are \<open><\<close>,
  \<open>>\<close> and \<open>=\<close>; an interval has a start and a stop.
\<close>

record timeInterval =
  start :: int
  stop :: int

text \<open>
  Modelled from the spec: \<^verbatim>\<open>Entity.js\<close> is not among the sources. Of an entity the
  collection reads the id, the availability, and the effective visibility
  \<^verbatim>\<open>isShowing\<close>, which the specification gives as the conjunction of the collection's
  \<open>show\<close> flag and the entity's own. An entity is a value here; a change of one of its
  attributes is represented by the \<^verbatim>\<open>definitionChanged\<close> notification it raises.
\<close>

record entity =
  entityId :: string
  entityShow :: bool
  availability :: "timeInterval option"

text \<open>
  The arguments of one \<^verbatim>\<open>collectionChanged\<close> event, and of one
  \<^verbatim>\<open>definitionChanged\<close> event of an entity.
\<close>

record batch =
  addedArray :: "entity list"
  removedArray :: "entity list"
  changedArray :: "entity list"

record signal =
  sigEntity :: entity
  sigProperty :: string
  sigNew :: bool
  sigOld :: bool

text \<open>
  The fields of the collection, without \<^verbatim>\<open>_owner\<close> and \<^verbatim>\<open>_id\<close>. The two events
  are represented by the trace of what was raised on them: \<open>collectionChanged\<close> is the
  list of batches raised so far, \<open>definitionChanged\<close> the list of entity signals
  raised by the collection.
\<close>

record entityCollection =
  entities :: "entity associativeArray"
  addedEntities :: "entity associativeArray"
  removedEntities :: "entity associativeArray"
  changedEntities :: "entity associativeArray"
  suspendCount :: nat
  collectionShow :: bool
  firing :: bool
  refire :: bool
  collectionChanged :: "batch list"
  definitionChanged :: "signal list"

text \<open>
  A call returns a value and the collection, or throws with the collection as it is at
  the throw, or the model runs out of fuel (the loop of \<^verbatim>\<open>fireChangedEvent\<close> need not
  terminate).
\<close>

datatype 'a outcome =
  Returned 'a entityCollection
| Thrown developerError entityCollection
| OutOfFuel

text \<open>
  Modelled from the spec: \<^verbatim>\<open>Core/Event.js\<close> is not among the sources. An event calls
  its subscribers in order. A subscriber of \<^verbatim>\<open>collectionChanged\<close> is given the
  collection and the three lists, and may call the public operations of the collection
  and change its entities: it is a function from the collection at the call and the batch
  to the list of operations it performs. The trace of the batches raised so far is part of
  the collection, so a subscriber may depend on what it was given before. The subscribers
  of an event are the same throughout a call.
\<close>

datatype op =
  OpAdd entity
| OpRemove entity
| OpRemoveById string
| OpRemoveAll
| OpGetOrCreateEntity string
| OpSuspendEvents
| OpResumeEvents
| OpSetShow bool
| OpEntityChanged entity

type_synonym listener = "entityCollection \<Rightarrow> batch \<Rightarrow> op list"

text \<open>
  The two errors the specification names, with the messages of the source.
\<close>

definition DuplicateKeyError :: "string \<Rightarrow> developerError" where
  "DuplicateKeyError k =
     DeveloperError (''An entity with id '' @ k @ '' already exists in this collection.'')"

definition ImbalancedSuspendError :: developerError where
  "ImbalancedSuspendError =
     DeveloperError ''resumeEvents can not be called before suspendEvents.''"

text \<open>
  Modelled from the spec: the getter \<^verbatim>\<open>isShowing\<close> and the constructor of
  \<^verbatim>\<open>Entity.js\<close>, which is not among the sources. The effective visibility of an
  entity of the collection is the collection's flag and the entity's own; an entity
  constructed from an id alone is shown and has no availability.
\<close>

definition isShowing :: "entityCollection \<Rightarrow> entity \<Rightarrow> bool" where
  "isShowing c e = (collectionShow c \<and> entityShow e)"

definition newEntity :: "string \<Rightarrow> entity" where
  "newEntity k = \<lparr>entityId = k, entityShow = True, availability = None\<rparr>"

definition suspendEvents :: "entityCollection \<Rightarrow> entityCollection" where
  "suspendEvents c = c\<lparr>suspendCount := suspendCount c + 1\<rparr>"

text \<open>The loop of \<^verbatim>\<open>removeAll\<close> over the entities held.\<close>

fun stageRemoveAll :: "entity list \<Rightarrow> entityCollection \<Rightarrow> entityCollection" where
  "stageRemoveAll [] c = c"
| "stageRemoveAll (existingItem # rest) c =
     stageRemoveAll rest
       (if aaGet (entityId existingItem) (addedEntities c) = None
        then c\<lparr>removedEntities := aaSet (entityId existingItem) existingItem (removedEntities c)\<rparr>
        else c)"

text \<open>
  \<^verbatim>\<open>computeAvailability\<close>. The two constants of \<^verbatim>\<open>Iso8601\<close> are not among the
  sources and are taken as a parameter.
\<close>

record iso8601 =
  MINIMUM_VALUE :: int
  MAXIMUM_VALUE :: int

fun availabilityLoop :: "iso8601 \<Rightarrow> entity list \<Rightarrow> int \<times> int \<Rightarrow> int \<times> int" where
  "availabilityLoop limits [] (startTime, stopTime) = (startTime, stopTime)"
| "availabilityLoop limits (entity # rest) (startTime, stopTime) =
     (case availability entity of
        None \<Rightarrow> availabilityLoop limits rest (startTime, stopTime)
      | Some a \<Rightarrow>
          availabilityLoop limits rest
            (if start a < startTime \<and> \<not> start a = MINIMUM_VALUE limits then start a else startTime,
             if stop a > stopTime \<and> \<not> stop a = MAXIMUM_VALUE limits then stop a else stopTime))"

definition computeAvailability :: "iso8601 \<Rightarrow> entityCollection \<Rightarrow> timeInterval" where
  "computeAvailability limits c =
     (case availabilityLoop limits (aaValues (entities c)) (MAXIMUM_VALUE limits, MINIMUM_VALUE limits) of
        (startTime, stopTime) \<Rightarrow>
          \<lparr>start = (if MAXIMUM_VALUE limits = startTime then MINIMUM_VALUE limits else startTime),
           stop = (if MINIMUM_VALUE limits = stopTime then MAXIMUM_VALUE limits else stopTime)\<rparr>)"

text \<open>The availability intervals of the entities that have one.\<close>

fun availabilities :: "entity list \<Rightarrow> timeInterval list" where
  "availabilities [] = []"
| "availabilities (e # es) =
     (case availability e of None \<Rightarrow> availabilities es | Some a \<Rightarrow> a # availabilities es)"

text \<open>
  The operations that end in a call of \<^verbatim>\<open>fireChangedEvent(this)\<close>. That function runs
  the subscribers, which call these operations again, so the operations take the function
  to call as their first argument; the program is each of them applied to
  \<open>fireChangedEvent n ls\<close>, for the subscribers \<open>ls\<close> and the fuel \<open>n\<close>.

  The arguments of the operations are entities, ids and booleans, so the checks for an
  undefined argument have no branch here; the back reference
  \<^verbatim>\<open>entity.entityCollection\<close> and the registration of
  \<^verbatim>\<open>_onEntityDefinitionChanged\<close> with the entity are not represented.
\<close>

type_synonym notifier = "entityCollection \<Rightarrow> unit outcome"

definition onEntityDefinitionChanged :: "notifier \<Rightarrow> entity \<Rightarrow> entityCollection \<Rightarrow> unit outcome" where
  "onEntityDefinitionChanged fire entity c =
     (let k = entityId entity;
          c1 = (if \<not> aaContains k (addedEntities c)
                then c\<lparr>changedEntities := aaSet k entity (changedEntities c)\<rparr>
                else c)
      in fire c1)"

definition resumeEvents :: "notifier \<Rightarrow> entityCollection \<Rightarrow> unit outcome" where
  "resumeEvents fire c =
     (if suspendCount c = 0 then Thrown ImbalancedSuspendError c
      else fire (c\<lparr>suspendCount := suspendCount c - 1\<rparr>))"

text \<open>
  \<^verbatim>\<open>entity.definitionChanged.raiseEvent(entity, name, new, old)\<close> for an entity of the
  collection: the signal is recorded and the collection's own subscriber
  \<^verbatim>\<open>_onEntityDefinitionChanged\<close>, registered by \<^verbatim>\<open>add\<close>, is called.
\<close>

definition raiseDefinitionChanged ::
  "notifier \<Rightarrow> entity \<Rightarrow> string \<Rightarrow> bool \<Rightarrow> bool \<Rightarrow> entityCollection \<Rightarrow> unit outcome" where
  "raiseDefinitionChanged fire entity propertyName newValue oldValue c =
     onEntityDefinitionChanged fire entity
       (c\<lparr>definitionChanged := definitionChanged c @
            [\<lparr>sigEntity = entity, sigProperty = propertyName,
              sigNew = newValue, sigOld = oldValue\<rparr>]\<rparr>)"

text \<open>The second loop of the setter of \<^verbatim>\<open>show\<close>, and the setter.\<close>

fun raiseIsShowing :: "notifier \<Rightarrow> (bool \<times> entity) list \<Rightarrow> entityCollection \<Rightarrow> unit outcome" where
  "raiseIsShowing fire [] c = Returned () c"
| "raiseIsShowing fire ((oldShow, entity) # ps) c =
     (if oldShow \<noteq> isShowing c entity
      then (case raiseDefinitionChanged fire entity ''isShowing'' (isShowing c entity) oldShow c of
              Returned u c' \<Rightarrow> raiseIsShowing fire ps c'
            | Thrown e c' \<Rightarrow> Thrown e c'
            | OutOfFuel \<Rightarrow> OutOfFuel)
      else raiseIsShowing fire ps c)"

definition setShow :: "notifier \<Rightarrow> bool \<Rightarrow> entityCollection \<Rightarrow> unit outcome" where
  "setShow fire v c =
     (if v = collectionShow c then Returned () c
      else
        (let c1 = suspendEvents c;
             ents = aaValues (entities c1);
             oldShows = map (isShowing c1) ents;
             c2 = c1\<lparr>collectionShow := v\<rparr>
         in case raiseIsShowing fire (zip oldShows ents) c2 of
              Returned u c3 \<Rightarrow> resumeEvents fire c3
            | Thrown e c3 \<Rightarrow> Thrown e c3
            | OutOfFuel \<Rightarrow> OutOfFuel))"

definition add :: "notifier \<Rightarrow> entity \<Rightarrow> entityCollection \<Rightarrow> entity outcome" where
  "add fire entity c =
     (let k = entityId entity in
      if aaContains k (entities c) then Thrown (DuplicateKeyError k) c
      else
        (let c1 = c\<lparr>entities := aaSet k entity (entities c)\<rparr>;
             r = aaRemove k (removedEntities c1);
             c2 = c1\<lparr>removedEntities := snd r\<rparr>;
             c3 = (if \<not> fst r then c2\<lparr>addedEntities := aaSet k entity (addedEntities c2)\<rparr> else c2)
         in case fire c3 of
              Returned u c' \<Rightarrow> Returned entity c'
            | Thrown e c' \<Rightarrow> Thrown e c'
            | OutOfFuel \<Rightarrow> OutOfFuel))"

definition removeById :: "notifier \<Rightarrow> string \<Rightarrow> entityCollection \<Rightarrow> bool outcome" where
  "removeById fire k c =
     (case aaGet k (entities c) of
        None \<Rightarrow> Returned False c
      | Some entity \<Rightarrow>
        (let c1 = c\<lparr>entities := snd (aaRemove k (entities c))\<rparr>;
             r = aaRemove k (addedEntities c1);
             c2 = c1\<lparr>addedEntities := snd r\<rparr>;
             c3 = (if \<not> fst r
                   then c2\<lparr>removedEntities := aaSet k entity (removedEntities c2),
                           changedEntities := snd (aaRemove k (changedEntities c2))\<rparr>
                   else c2);
             c4 = c3\<lparr>entities := snd (aaRemove k (entities c3))\<rparr>
         in case fire c4 of
              Returned u c' \<Rightarrow> Returned True c'
            | Thrown e c' \<Rightarrow> Thrown e c'
            | OutOfFuel \<Rightarrow> OutOfFuel))"

definition remove :: "notifier \<Rightarrow> entity \<Rightarrow> entityCollection \<Rightarrow> bool outcome" where
  "remove fire entity c = removeById fire (entityId entity) c"

definition removeAll :: "notifier \<Rightarrow> entityCollection \<Rightarrow> unit outcome" where
  "removeAll fire c =
     (let c1 = stageRemoveAll (aaValues (entities c)) c;
          c2 = c1\<lparr>entities := aaRemoveAll (entities c1),
                  addedEntities := aaRemoveAll (addedEntities c1),
                  changedEntities := aaRemoveAll (changedEntities c1)\<rparr>
      in fire c2)"

definition getOrCreateEntity :: "notifier \<Rightarrow> string \<Rightarrow> entityCollection \<Rightarrow> entity outcome" where
  "getOrCreateEntity fire k c =
     (case aaGet k (entities c) of
        Some entity \<Rightarrow> Returned entity c
      | None \<Rightarrow>
        (case add fire (newEntity k) c of
           Returned r c' \<Rightarrow> Returned (newEntity k) c'
         | Thrown e c' \<Rightarrow> Thrown e c'
         | OutOfFuel \<Rightarrow> OutOfFuel))"

text \<open>What a subscriber of \<^verbatim>\<open>collectionChanged\<close> does: a list of operations.\<close>

definition discard :: "'a outcome \<Rightarrow> unit outcome" where
  "discard r = (case r of Returned v c \<Rightarrow> Returned () c | Thrown e c \<Rightarrow> Thrown e c
                | OutOfFuel \<Rightarrow> OutOfFuel)"

fun applyOp :: "notifier \<Rightarrow> op \<Rightarrow> entityCollection \<Rightarrow> unit outcome" where
  "applyOp fire (OpAdd e) c = discard (add fire e c)"
| "applyOp fire (OpRemove e) c = discard (remove fire e c)"
| "applyOp fire (OpRemoveById k) c = discard (removeById fire k c)"
| "applyOp fire OpRemoveAll c = removeAll fire c"
| "applyOp fire (OpGetOrCreateEntity k) c = discard (getOrCreateEntity fire k c)"
| "applyOp fire OpSuspendEvents c = Returned () (suspendEvents c)"
| "applyOp fire OpResumeEvents c = resumeEvents fire c"
| "applyOp fire (OpSetShow v) c = setShow fire v c"
| "applyOp fire (OpEntityChanged e) c = onEntityDefinitionChanged fire e c"

fun runOps :: "notifier \<Rightarrow> op list \<Rightarrow> entityCollection \<Rightarrow> unit outcome" where
  "runOps fire [] c = Returned () c"
| "runOps fire (x # xs) c =
     (case applyOp fire x c of
        Returned u c' \<Rightarrow> runOps fire xs c'
      | Thrown e c' \<Rightarrow> Thrown e c'
      | OutOfFuel \<Rightarrow> OutOfFuel)"

fun raiseEvent :: "notifier \<Rightarrow> listener list \<Rightarrow> batch \<Rightarrow> entityCollection \<Rightarrow> unit outcome" where
  "raiseEvent fire [] b c = Returned () c"
| "raiseEvent fire (l # rest) b c =
     (case runOps fire (l c b) c of
        Returned u c' \<Rightarrow> raiseEvent fire rest b c'
      | Thrown e c' \<Rightarrow> Thrown e c'
      | OutOfFuel \<Rightarrow> OutOfFuel)"

text \<open>
  \<^verbatim>\<open>fireChangedEvent\<close>. \<open>firePass\<close> is the body of its do-while loop,
  \<open>fireLoop\<close> the loop; each pass takes one unit of fuel.
\<close>

definition firePass :: "notifier \<Rightarrow> listener list \<Rightarrow> entityCollection \<Rightarrow> unit outcome" where
  "firePass fire ls c =
     (let c1 = c\<lparr>refire := False\<rparr>;
          b = \<lparr>addedArray = aaValues (addedEntities c1),
               removedArray = aaValues (removedEntities c1),
               changedArray = aaValues (changedEntities c1)\<rparr>;
          c2 = c1\<lparr>addedEntities := aaRemoveAll (addedEntities c1),
                  removedEntities := aaRemoveAll (removedEntities c1),
                  changedEntities := aaRemoveAll (changedEntities c1)\<rparr>
      in raiseEvent fire ls b (c2\<lparr>collectionChanged := collectionChanged c2 @ [b]\<rparr>))"

fun fireChangedEvent :: "nat \<Rightarrow> listener list \<Rightarrow> entityCollection \<Rightarrow> unit outcome"
and fireLoop :: "nat \<Rightarrow> listener list \<Rightarrow> entityCollection \<Rightarrow> unit outcome"
where
  "fireChangedEvent n ls c =
     (if firing c then Returned () (c\<lparr>refire := True\<rparr>)
      else if suspendCount c = 0 then
        (if length (changedEntities c) \<noteq> 0 \<or> length (addedEntities c) \<noteq> 0
            \<or> length (removedEntities c) \<noteq> 0
         then (case fireLoop n ls (c\<lparr>firing := True\<rparr>) of
                 Returned u c' \<Rightarrow> Returned () (c'\<lparr>firing := False\<rparr>)
               | Thrown e c' \<Rightarrow> Thrown e c'
               | OutOfFuel \<Rightarrow> OutOfFuel)
         else Returned () c)
      else Returned () c)"
| "fireLoop 0 ls c = OutOfFuel"
| "fireLoop (Suc n) ls c =
     (case firePass (fireChangedEvent n ls) ls c of
        Returned u c' \<Rightarrow> if refire c' then fireLoop n ls c' else Returned () c'
      | Thrown e c' \<Rightarrow> Thrown e c'
      | OutOfFuel \<Rightarrow> OutOfFuel)"


text \<open>Notions used in the statements.\<close>

definition snapshot :: "entityCollection \<Rightarrow> batch" where
  "snapshot c = \<lparr>addedArray = aaValues (addedEntities c),
                 removedArray = aaValues (removedEntities c),
                 changedArray = aaValues (changedEntities c)\<rparr>"

definition stagingEmpty :: "entityCollection \<Rightarrow> bool" where
  "stagingEmpty c = (addedEntities c = [] \<and> removedEntities c = [] \<and> changedEntities c = [])"

text \<open>
  What \<^verbatim>\<open>fireChangedEvent\<close> does during a delivery, and what an operation called by a
  subscriber may do to the collection: the delivery stays in progress, no event is raised,
  and either \<open>refire\<close> is set or the staging arrays are as before.
\<close>

definition markRefire :: notifier where
  "markRefire c = Returned () (c\<lparr>refire := True\<rparr>)"

definition nestedStep :: "entityCollection \<Rightarrow> entityCollection \<Rightarrow> bool" where
  "nestedStep c c' =
     (firing c' \<and> collectionChanged c' = collectionChanged c
      \<and> (refire c \<longrightarrow> refire c')
      \<and> (refire c' \<or> (addedEntities c' = addedEntities c
                       \<and> removedEntities c' = removedEntities c
                       \<and> changedEntities c' = changedEntities c)))"

fun outcomeState :: "(entityCollection \<Rightarrow> bool) \<Rightarrow> 'a outcome \<Rightarrow> bool" where
  "outcomeState P (Returned v c) = P c"
| "outcomeState P (Thrown e c) = P c"
| "outcomeState P OutOfFuel = False"

text \<open>The state after one pass, and after the loop.\<close>

definition passDone :: "entityCollection \<Rightarrow> entityCollection \<Rightarrow> bool" where
  "passDone c c' =
     (firing c' \<and> collectionChanged c' = collectionChanged c @ [snapshot c]
      \<and> (refire c' \<or> stagingEmpty c'))"

definition loopDone :: "entityCollection \<Rightarrow> entityCollection \<Rightarrow> bool" where
  "loopDone c c' =
     (firing c' \<and> \<not> refire c' \<and> stagingEmpty c'
      \<and> (\<exists>rest. collectionChanged c' = collectionChanged c @ snapshot c # rest))"

text \<open>Concrete collections and entities for evaluation.\<close>

definition EntityCollection :: entityCollection where
  "EntityCollection =
     \<lparr>entities = [], addedEntities = [], removedEntities = [], changedEntities = [],
      suspendCount = 0, collectionShow = True, firing = False, refire = False,
      collectionChanged = [], definitionChanged = []\<rparr>"

definition entityA :: entity where
  "entityA = \<lparr>entityId = ''a'', entityShow = True, availability = None\<rparr>"

definition entityB :: entity where
  "entityB = \<lparr>entityId = ''b'', entityShow = False, availability = None\<rparr>"

definition holdingA :: entityCollection where
  "holdingA = EntityCollection\<lparr>entities := [(''a'', entityA)]\<rparr>"


definition stagedA :: entityCollection where
  "stagedA = EntityCollection\<lparr>entities := [(''a'', entityA)], addedEntities := [(''a'', entityA)]\<rparr>"


text \<open>
  Every operation stores an entity under its own id; an array for which this holds is
  keyed by id.
\<close>

definition keyedById :: "entity associativeArray \<Rightarrow> bool" where
  "keyedById a = list_all (\<lambda>kv. entityId (snd kv) = fst kv) a"

definition entityA2 :: entity where
  "entityA2 = \<lparr>entityId = ''a'', entityShow = False, availability = None\<rparr>"

definition pendingRemovalA :: entityCollection where
  "pendingRemovalA =
     EntityCollection\<lparr>removedEntities := [(''a'', entityA), (''b'', entityB)], suspendCount := 1\<rparr>"

text \<open>
  The effect of toggling \<open>show\<close>, stated without the loops: the entities whose
  effective visibility differs before and after, the signal raised for each, and the
  staging of those among them that are not staged as added.
\<close>

definition affectedBy :: "bool \<Rightarrow> entityCollection \<Rightarrow> entity list" where
  "affectedBy v c =
     filter (\<lambda>e. isShowing c e \<noteq> isShowing (c\<lparr>collectionShow := v\<rparr>) e) (aaValues (entities c))"

definition isShowingSignal :: "bool \<Rightarrow> entityCollection \<Rightarrow> entity \<Rightarrow> signal" where
  "isShowingSignal v c e =
     \<lparr>sigEntity = e, sigProperty = ''isShowing'',
      sigNew = isShowing (c\<lparr>collectionShow := v\<rparr>) e, sigOld = isShowing c e\<rparr>"

fun stageChangedAll ::
  "entity associativeArray \<Rightarrow> entity list \<Rightarrow> entity associativeArray \<Rightarrow> entity associativeArray" where
  "stageChangedAll added [] changed = changed"
| "stageChangedAll added (e # es) changed =
     stageChangedAll added es
       (if aaContains (entityId e) added then changed else aaSet (entityId e) e changed)"

definition showToggled :: "bool \<Rightarrow> entityCollection \<Rightarrow> entityCollection" where
  "showToggled v c =
     c\<lparr>collectionShow := v,
       changedEntities := stageChangedAll (addedEntities c) (affectedBy v c) (changedEntities c),
       definitionChanged := definitionChanged c @ map (isShowingSignal v c) (affectedBy v c)\<rparr>"

definition holdingAB :: entityCollection where
  "holdingAB = EntityCollection\<lparr>entities := [(''a'', entityA), (''b'', entityB)]\<rparr>"

text \<open>
  The interval the claim on \<^verbatim>\<open>computeAvailability\<close> describes: from the least start
  that is not the unbounded-past sentinel to the greatest stop that is not the
  unbounded-future sentinel, each replaced by its sentinel when there is none.
\<close>

definition spanningAvailability :: "iso8601 \<Rightarrow> entityCollection \<Rightarrow> timeInterval" where
  "spanningAvailability limits c =
     (let starts = filter (\<lambda>t. t \<noteq> MINIMUM_VALUE limits)
                     (map start (availabilities (aaValues (entities c))));
          stops = filter (\<lambda>t. t \<noteq> MAXIMUM_VALUE limits)
                     (map stop (availabilities (aaValues (entities c))))
      in \<lparr>start = (if starts = [] then MINIMUM_VALUE limits else Min (set starts)),
          stop = (if stops = [] then MAXIMUM_VALUE limits else Max (set stops))\<rparr>)"

definition sampleIso :: iso8601 where
  "sampleIso = \<lparr>MINIMUM_VALUE = 0, MAXIMUM_VALUE = 100\<rparr>"

definition timed :: "string \<Rightarrow> int \<Rightarrow> int \<Rightarrow> entity" where
  "timed k t1 t2 =
     \<lparr>entityId = k, entityShow = True, availability = Some \<lparr>start = t1, stop = t2\<rparr>\<rparr>"

definition holdingTimed :: entityCollection where
  "holdingTimed =
     EntityCollection\<lparr>entities :=
       [(''x'', timed ''x'' 0 5), (''y'', timed ''y'' 3 100), (''a'', entityA),
        (''z'', timed ''z'' 4 9)]\<rparr>"

definition holdingLate :: entityCollection where
  "holdingLate = EntityCollection\<lparr>entities := [(''l'', timed ''l'' 100 100)]\<rparr>"

text \<open>
  Subscribers for evaluation: one that does nothing, one that replaces the entity with
  id \<open>a\<close> by another entity with the same id when it is told of the first, and one
  that adds the same entity twice, so that its second call throws.
\<close>

definition idle :: listener where
  "idle c b = []"




text \<open>
  The collection after \<^verbatim>\<open>add(e)\<close>, and after \<^verbatim>\<open>add(e)\<close> and \<^verbatim>\<open>remove(e)\<close>, for
  an entity whose id is neither held nor staged as removed, in a collection that is
  suspended or delivering.
\<close>

definition afterAdd :: "entity \<Rightarrow> entityCollection \<Rightarrow> entityCollection" where
  "afterAdd e c =
     c\<lparr>entities := entities c @ [(entityId e, e)],
       addedEntities := aaSet (entityId e) e (addedEntities c),
       refire := refire c \<or> firing c\<rparr>"

definition afterAddRemove :: "entity \<Rightarrow> entityCollection \<Rightarrow> entityCollection" where
  "afterAddRemove e c =
     c\<lparr>addedEntities := filter (\<lambda>kv. fst kv \<noteq> entityId e) (addedEntities c),
       refire := refire c \<or> firing c\<rparr>"

text \<open>
  All four arrays keyed by id, and a property of the collection an outcome ends with.
\<close>

definition keyedAll :: "entityCollection \<Rightarrow> bool" where
  "keyedAll c =
     (keyedById (entities c) \<and> keyedById (addedEntities c)
      \<and> keyedById (removedEntities c) \<and> keyedById (changedEntities c))"

fun whenDone :: "(entityCollection \<Rightarrow> bool) \<Rightarrow> 'a outcome \<Rightarrow> bool" where
  "whenDone P (Returned v c) = P c"
| "whenDone P (Thrown e c) = P c"
| "whenDone P OutOfFuel = True"

section \<open>ModelExperimentalNode: the transform node\<close>

text \<open>
  Source: \<^verbatim>\<open>Source/Scene/ModelExperimental/ModelExperimentalNode.js\<close>.

  \<^verbatim>\<open>Matrix4\<close> and \<^verbatim>\<open>ModelExperimentalUtility\<close> are not part of the sources at hand.
  The three functions of them that the node calls are taken as parameters, collected
  in a record: the node only ever passes matrices through them. A matrix is a value of
  an arbitrary type \<open>'m\<close>; \<^verbatim>\<open>Matrix4.clone\<close> copies a value, and the result
  parameter of \<^verbatim>\<open>Matrix4.multiply\<close> and \<^verbatim>\<open>correctModelMatrix\<close> is the place the
  returned value is written to, so both are the identity and the returned value here.
\<close>

record ('m, 'a) matrixOps =
  equals :: "'m \<Rightarrow> 'm \<Rightarrow> bool"
  multiply :: "'m \<Rightarrow> 'm \<Rightarrow> 'm"
  correctModelMatrix :: "'m \<Rightarrow> 'a \<Rightarrow> 'a \<Rightarrow> 'm"

record 'a components =
  upAxis :: 'a
  forwardAxis :: 'a

record 'a sceneGraphRef =
  components :: "'a components"

record 'i nodeComponents =
  instances :: "'i option"

datatype stage = InstancingPipelineStage | ModelMatrixUpdateStage

record ('m, 'a, 'i) nodeOptions =
  optNode :: "'i nodeComponents option"
  optTransform :: "'m option"
  optTransformToRoot :: "'m option"
  optSceneGraph :: "'a sceneGraphRef option"
  optChildren :: "nat list option"

record ('m, 'a, 'i) runtimeNode =
  sceneGraph :: "'a sceneGraphRef"
  children :: "nat list"
  node :: "'i nodeComponents"
  transform :: 'm
  transformToRoot :: 'm
  originalTransform :: 'm
  instancingNodeTransform :: "'m option"
  transformDirty :: bool
  pipelineStages :: "stage list"
  runtimePrimitives :: "nat list"
  updateStages :: "stage list"

definition configurePipeline :: "('m, 'a, 'i) runtimeNode \<Rightarrow> ('m, 'a, 'i) runtimeNode" where
  "configurePipeline n =
     (let pipelineStages1 = [];
          updateStages1 = [];
          pipelineStages2 = (if instances (node n) \<noteq> None
                             then pipelineStages1 @ [InstancingPipelineStage]
                             else pipelineStages1)
      in n\<lparr>pipelineStages := pipelineStages2,
            updateStages := updateStages1 @ [ModelMatrixUpdateStage]\<rparr>)"

definition ModelExperimentalNode ::
  "('m, 'a) matrixOps \<Rightarrow> ('m, 'a, 'i) nodeOptions \<Rightarrow> developerError + ('m, 'a, 'i) runtimeNode" where
  "ModelExperimentalNode ops options =
     (case optNode options of
        None \<Rightarrow> Inl (DeveloperError ''options.node'')
      | Some nd \<Rightarrow>
     (case optTransform options of
        None \<Rightarrow> Inl (DeveloperError ''options.transform'')
      | Some tr \<Rightarrow>
     (case optTransformToRoot options of
        None \<Rightarrow> Inl (DeveloperError ''options.transformToRoot'')
      | Some toRoot \<Rightarrow>
     (case optSceneGraph options of
        None \<Rightarrow> Inl (DeveloperError ''options.sceneGraph'')
      | Some sg \<Rightarrow>
     (case optChildren options of
        None \<Rightarrow> Inl (DeveloperError ''options.children'')
      | Some ch \<Rightarrow>
          Inr (configurePipeline
            \<lparr>sceneGraph = sg,
             children = ch,
             node = nd,
             transform = tr,
             transformToRoot = toRoot,
             originalTransform = tr,
             instancingNodeTransform =
               (if instances nd \<noteq> None
                then Some (correctModelMatrix ops (multiply ops toRoot tr)
                             (upAxis (components sg)) (forwardAxis (components sg)))
                else None),
             transformDirty = False,
             pipelineStages = [],
             runtimePrimitives = [],
             updateStages = []\<rparr>))))))"

text \<open>The setter of the property \<^verbatim>\<open>transform\<close>.\<close>

definition setTransform ::
  "('m, 'a) matrixOps \<Rightarrow> 'm \<Rightarrow> ('m, 'a, 'i) runtimeNode \<Rightarrow> ('m, 'a, 'i) runtimeNode" where
  "setTransform ops v n =
     (if equals ops (transform n) v then n
      else
        (let n1 = n\<lparr>transformDirty := True\<rparr>;
             n2 = n1\<lparr>transform := v\<rparr>
         in if instances (node n2) \<noteq> None
            then n2\<lparr>instancingNodeTransform :=
                      Some (correctModelMatrix ops (multiply ops (transformToRoot n2) (transform n2))
                              (upAxis (components (sceneGraph n2)))
                              (forwardAxis (components (sceneGraph n2))))\<rparr>
            else n2))"

text \<open>A run of assignments to the property, in order.\<close>

fun setTransforms ::
  "('m, 'a) matrixOps \<Rightarrow> 'm list \<Rightarrow> ('m, 'a, 'i) runtimeNode \<Rightarrow> ('m, 'a, 'i) runtimeNode" where
  "setTransforms ops [] n = n"
| "setTransforms ops (v # vs) n = setTransforms ops vs (setTransform ops v n)"

text \<open>
  The value the instancing transform is to have: the axis-corrected product of
  \<open>transformToRoot\<close> and the local transform for a node with per-instance data, and
  undefined otherwise.
\<close>

definition instancingDerived ::
  "('m, 'a) matrixOps \<Rightarrow> ('m, 'a, 'i) runtimeNode \<Rightarrow> 'm option" where
  "instancingDerived ops n =
     (if instances (node n) \<noteq> None
      then Some (correctModelMatrix ops (multiply ops (transformToRoot n) (transform n))
                   (upAxis (components (sceneGraph n))) (forwardAxis (components (sceneGraph n))))
      else None)"

text \<open>A concrete instance for evaluation: integers in the place of matrices.\<close>

definition intOps :: "(int, int) matrixOps" where
  "intOps = \<lparr>equals = (\<lambda>a b. a = b), multiply = (\<lambda>a b. a * b),
              correctModelMatrix = (\<lambda>m up fwd. m * up + fwd)\<rparr>"

definition sampleOptions :: "bool \<Rightarrow> (int, int, unit) nodeOptions" where
  "sampleOptions instanced =
     \<lparr>optNode = Some \<lparr>instances = (if instanced then Some () else None)\<rparr>,
      optTransform = Some 2,
      optTransformToRoot = Some 3,
      optSceneGraph = Some \<lparr>components = \<lparr>upAxis = 10, forwardAxis = 1\<rparr>\<rparr>,
      optChildren = Some []\<rparr>"

definition sampleNode :: "bool \<Rightarrow> (int, int, unit) runtimeNode" where
  "sampleNode instanced =
     \<lparr>sceneGraph = \<lparr>components = \<lparr>upAxis = 10, forwardAxis = 1\<rparr>\<rparr>,
      children = [],
      node = \<lparr>instances = (if instanced then Some () else None)\<rparr>,
      transform = 2,
      transformToRoot = 3,
      originalTransform = 2,
      instancingNodeTransform = (if instanced then Some 61 else None),
      transformDirty = False,
      pipelineStages = (if instanced then [InstancingPipelineStage] else []),
      runtimePrimitives = [],
      updateStages = [ModelMatrixUpdateStage]\<rparr>"

section \<open>Label: dirty-state propagation to the owning collection\<close>

text \<open>
  Source: \<^verbatim>\<open>Source/Scene/Label.js\<close>, the two file-local functions
  \<^verbatim>\<open>rebindAllGlyphs(label)\<close> and \<^verbatim>\<open>repositionAllGlyphs(label)\<close>.

  A label is a mutable object that holds a reference to its collection; the collection
  holds the array \<^verbatim>\<open>_labelsToUpdate\<close> of label references. The model keeps an
  explicit store from label references (natural numbers) to the two dirty flags of the
  label, and the array as a list of references.
\<close>

record label =
  rebindAllGlyphsFlag :: bool
  repositionAllGlyphsFlag :: bool

record labelCollection =
  labels :: "nat \<Rightarrow> label"
  labelsToUpdate :: "nat list"

definition rebindAllGlyphs :: "nat \<Rightarrow> labelCollection \<Rightarrow> labelCollection" where
  "rebindAllGlyphs l s =
     (let s1 = (if \<not> rebindAllGlyphsFlag (labels s l) \<and> \<not> repositionAllGlyphsFlag (labels s l)
                then s\<lparr>labelsToUpdate := labelsToUpdate s @ [l]\<rparr>
                else s)
      in s1\<lparr>labels := (labels s1)(l := (labels s1 l)\<lparr>rebindAllGlyphsFlag := True\<rparr>)\<rparr>)"

definition repositionAllGlyphs :: "nat \<Rightarrow> labelCollection \<Rightarrow> labelCollection" where
  "repositionAllGlyphs l s =
     (let s1 = (if \<not> rebindAllGlyphsFlag (labels s l) \<and> \<not> repositionAllGlyphsFlag (labels s l)
                then s\<lparr>labelsToUpdate := labelsToUpdate s @ [l]\<rparr>
                else s)
      in s1\<lparr>labels := (labels s1)(l := (labels s1 l)\<lparr>repositionAllGlyphsFlag := True\<rparr>)\<rparr>)"

text \<open>
  The property setters of a label call one of the two functions; a run of setter calls on
  the labels of one collection is a list of such calls.
\<close>

datatype dirtyCall = Rebind nat | Reposition nat

fun markDirty :: "dirtyCall \<Rightarrow> labelCollection \<Rightarrow> labelCollection" where
  "markDirty (Rebind l) s = rebindAllGlyphs l s"
| "markDirty (Reposition l) s = repositionAllGlyphs l s"

fun markAll :: "dirtyCall list \<Rightarrow> labelCollection \<Rightarrow> labelCollection" where
  "markAll [] s = s"
| "markAll (m # ms) s = markAll ms (markDirty m s)"

definition isDirty :: "labelCollection \<Rightarrow> nat \<Rightarrow> bool" where
  "isDirty s l = (rebindAllGlyphsFlag (labels s l) \<or> repositionAllGlyphsFlag (labels s l))"

text \<open>
  The pending list is consistent when every label in it is dirty and occurs once.
\<close>

definition pendingOnce :: "labelCollection \<Rightarrow> bool" where
  "pendingOnce s =
     (distinct (labelsToUpdate s) \<and> list_all (isDirty s) (labelsToUpdate s))"

definition freshCollection :: labelCollection where
  "freshCollection =
     \<lparr>labels = (\<lambda>_. \<lparr>rebindAllGlyphsFlag = False, repositionAllGlyphsFlag = False\<rparr>),
      labelsToUpdate = []\<rparr>"

section \<open>EntityCollection: proofs\<close>

text \<open>
  The equations of \<open>fireChangedEvent\<close> and \<open>fireLoop\<close> are unfolded by hand.
\<close>

declare fireChangedEvent.simps [simp del]

declare fireLoop.simps [simp del]

lemma fireLoop_0: "fireLoop 0 ls c = OutOfFuel"
  by (simp add: fireLoop.simps)

lemma fire_reentrant:
  "firing c \<Longrightarrow> fireChangedEvent n ls c = Returned () (c\<lparr>refire := True\<rparr>)"
  by (simp add: fireChangedEvent.simps)

lemma nestedStep_refl: "firing c \<Longrightarrow> nestedStep c c"
  by (simp add: nestedStep_def)

lemma nestedStep_trans: "nestedStep a b \<Longrightarrow> nestedStep b c \<Longrightarrow> nestedStep a c"
  by (auto simp: nestedStep_def)

lemma outcomeState_mono:
  "outcomeState P r \<Longrightarrow> (\<And>c. P c \<Longrightarrow> Q c) \<Longrightarrow> outcomeState Q r"
  by (cases r) auto

lemma outcomeState_discard [simp]: "outcomeState P (discard r) = outcomeState P r"
  by (cases r) (auto simp: discard_def)

lemma stageRemoveAll_fields:
  "firing (stageRemoveAll xs c) = firing c"
  "refire (stageRemoveAll xs c) = refire c"
  "collectionChanged (stageRemoveAll xs c) = collectionChanged c"
  by (induction xs arbitrary: c) simp_all

lemma nested_onEntityDefinitionChanged:
  "firing c \<Longrightarrow> outcomeState (nestedStep c) (onEntityDefinitionChanged markRefire e c)"
  by (simp add: onEntityDefinitionChanged_def markRefire_def nestedStep_def Let_def)

lemma nested_resumeEvents:
  "firing c \<Longrightarrow> outcomeState (nestedStep c) (resumeEvents markRefire c)"
  by (simp add: resumeEvents_def markRefire_def nestedStep_def Let_def)

lemma nested_add:
  "firing c \<Longrightarrow> outcomeState (nestedStep c) (add markRefire e c)"
  by (simp add: add_def markRefire_def nestedStep_def Let_def)

lemma nested_removeById:
  "firing c \<Longrightarrow> outcomeState (nestedStep c) (removeById markRefire k c)"
  by (simp add: removeById_def markRefire_def nestedStep_def Let_def split: option.splits)

lemma nested_removeAll:
  "firing c \<Longrightarrow> outcomeState (nestedStep c) (removeAll markRefire c)"
  by (simp add: removeAll_def markRefire_def nestedStep_def Let_def stageRemoveAll_fields)

lemma nested_getOrCreateEntity:
  "firing c \<Longrightarrow> outcomeState (nestedStep c) (getOrCreateEntity markRefire k c)"
  using nested_add [of c "newEntity k"]
  by (cases "add markRefire (newEntity k) c")
     (auto simp: getOrCreateEntity_def nestedStep_refl split: option.splits)


lemma nested_raiseDefinitionChanged:
  "firing c \<Longrightarrow> outcomeState (nestedStep c) (raiseDefinitionChanged markRefire e p x y c)"
  by (simp add: raiseDefinitionChanged_def onEntityDefinitionChanged_def markRefire_def
      nestedStep_def Let_def)

lemma raiseIsShowing_unchanged:
  "oldShow = isShowing c entity \<Longrightarrow>
   raiseIsShowing fire ((oldShow, entity) # ps) c = raiseIsShowing fire ps c"
  by simp

lemma raiseIsShowing_changed:
  "oldShow \<noteq> isShowing c entity \<Longrightarrow>
   raiseIsShowing fire ((oldShow, entity) # ps) c =
     (case raiseDefinitionChanged fire entity ''isShowing'' (isShowing c entity) oldShow c of
        Returned u c' \<Rightarrow> raiseIsShowing fire ps c'
      | Thrown e c' \<Rightarrow> Thrown e c'
      | OutOfFuel \<Rightarrow> OutOfFuel)"
  by simp

lemma nested_raiseIsShowing:
  "firing c \<Longrightarrow> outcomeState (nestedStep c) (raiseIsShowing markRefire ps c)"
proof (induction ps arbitrary: c)
  case Nil
  then show ?case by (simp add: nestedStep_refl)
next
  case (Cons p ps)
  obtain oldShow entity where p: "p = (oldShow, entity)" by (cases p)
  let ?r = "raiseDefinitionChanged markRefire entity ''isShowing'' (isShowing c entity) oldShow c"
  have a: "outcomeState (nestedStep c) ?r"
    by (rule nested_raiseDefinitionChanged [OF Cons.prems])
  show ?case
  proof (cases "oldShow = isShowing c entity")
    case True
    show ?thesis
      unfolding p raiseIsShowing_unchanged [OF True] by (rule Cons.IH [OF Cons.prems])
  next
    case False
    show ?thesis
    proof (cases ?r)
      case (Returned u c')
      with a have s: "nestedStep c c'" by simp
      then have "firing c'" by (simp add: nestedStep_def)
      then have "outcomeState (nestedStep c') (raiseIsShowing markRefire ps c')" by (rule Cons.IH)
      then have "outcomeState (nestedStep c) (raiseIsShowing markRefire ps c')"
        by (rule outcomeState_mono) (rule nestedStep_trans [OF s])
      then show ?thesis
        unfolding p raiseIsShowing_changed [OF False] Returned by simp
    next
      case (Thrown e c')
      with a show ?thesis
        unfolding p raiseIsShowing_changed [OF False] by simp
    next
      case OutOfFuel
      with a show ?thesis by simp
    qed
  qed
qed

lemma setShow_same: "v = collectionShow c \<Longrightarrow> setShow fire v c = Returned () c"
  by (simp add: setShow_def)

lemma setShow_toggle:
  "v \<noteq> collectionShow c \<Longrightarrow>
   setShow fire v c =
     (case raiseIsShowing fire
             (zip (map (isShowing (suspendEvents c)) (aaValues (entities (suspendEvents c))))
                  (aaValues (entities (suspendEvents c))))
             ((suspendEvents c)\<lparr>collectionShow := v\<rparr>) of
        Returned u c3 \<Rightarrow> resumeEvents fire c3
      | Thrown e c3 \<Rightarrow> Thrown e c3
      | OutOfFuel \<Rightarrow> OutOfFuel)"
  by (simp add: setShow_def Let_def)

lemma nested_setShow:
  assumes "firing c"
  shows "outcomeState (nestedStep c) (setShow markRefire v c)"
proof (cases "v = collectionShow c")
  case True
  show ?thesis unfolding setShow_same [OF True] using assms by (simp add: nestedStep_refl)
next
  case False
  let ?c2 = "(suspendEvents c)\<lparr>collectionShow := v\<rparr>"
  let ?ps = "zip (map (isShowing (suspendEvents c)) (aaValues (entities (suspendEvents c))))
                 (aaValues (entities (suspendEvents c)))"
  have f: "firing ?c2" using assms by (simp add: suspendEvents_def)
  have s: "nestedStep c ?c2" using assms by (simp add: nestedStep_def suspendEvents_def)
  have r: "outcomeState (nestedStep ?c2) (raiseIsShowing markRefire ?ps ?c2)"
    by (rule nested_raiseIsShowing [OF f])
  show ?thesis
  proof (cases "raiseIsShowing markRefire ?ps ?c2")
    case (Returned u c3)
    with r have s3: "nestedStep ?c2 c3" by simp
    then have "firing c3" by (simp add: nestedStep_def)
    then have "outcomeState (nestedStep c3) (resumeEvents markRefire c3)"
      by (rule nested_resumeEvents)
    then have "outcomeState (nestedStep c) (resumeEvents markRefire c3)"
      by (rule outcomeState_mono) (blast intro: nestedStep_trans s s3)
    then show ?thesis unfolding setShow_toggle [OF False] Returned by simp
  next
    case (Thrown e c3)
    with r have "nestedStep ?c2 c3" by simp
    then have "nestedStep c c3" using s nestedStep_trans by blast
    then show ?thesis unfolding setShow_toggle [OF False] Thrown by simp
  next
    case OutOfFuel
    with r show ?thesis by simp
  qed
qed

lemma nested_applyOp:
  "firing c \<Longrightarrow> outcomeState (nestedStep c) (applyOp markRefire x c)"
proof (cases x)
  case OpSuspendEvents
  assume "firing c"
  then show ?thesis using OpSuspendEvents by (simp add: suspendEvents_def nestedStep_def)
qed (simp_all add: nested_add nested_removeById nested_removeAll nested_getOrCreateEntity
      nested_resumeEvents nested_setShow nested_onEntityDefinitionChanged remove_def)

lemma nested_runOps:
  "firing c \<Longrightarrow> outcomeState (nestedStep c) (runOps markRefire xs c)"
proof (induction xs arbitrary: c)
  case Nil
  then show ?case by (simp add: nestedStep_refl)
next
  case (Cons x xs)
  have a: "outcomeState (nestedStep c) (applyOp markRefire x c)"
    by (rule nested_applyOp [OF Cons.prems])
  show ?case
  proof (cases "applyOp markRefire x c")
    case (Returned u c')
    with a have s: "nestedStep c c'" by simp
    then have "firing c'" by (simp add: nestedStep_def)
    then have "outcomeState (nestedStep c') (runOps markRefire xs c')" by (rule Cons.IH)
    then have "outcomeState (nestedStep c) (runOps markRefire xs c')"
      by (rule outcomeState_mono) (rule nestedStep_trans [OF s])
    then show ?thesis using Returned by simp
  next
    case (Thrown e c')
    with a show ?thesis by simp
  next
    case OutOfFuel
    with a show ?thesis by simp
  qed
qed

lemma nested_raiseEvent:
  "firing c \<Longrightarrow> outcomeState (nestedStep c) (raiseEvent markRefire ls b c)"
proof (induction ls arbitrary: c)
  case Nil
  then show ?case by (simp add: nestedStep_refl)
next
  case (Cons l ls)
  have a: "outcomeState (nestedStep c) (runOps markRefire (l c b) c)"
    by (rule nested_runOps [OF Cons.prems])
  show ?case
  proof (cases "runOps markRefire (l c b) c")
    case (Returned u c')
    with a have s: "nestedStep c c'" by simp
    then have "firing c'" by (simp add: nestedStep_def)
    then have "outcomeState (nestedStep c') (raiseEvent markRefire ls b c')" by (rule Cons.IH)
    then have "outcomeState (nestedStep c) (raiseEvent markRefire ls b c')"
      by (rule outcomeState_mono) (rule nestedStep_trans [OF s])
    then show ?thesis using Returned by simp
  next
    case (Thrown e c')
    with a show ?thesis by simp
  next
    case OutOfFuel
    with a show ?thesis by simp
  qed
qed


lemma reentrant_onEntityDefinitionChanged:
  assumes "\<And>c. firing c \<Longrightarrow> fire c = markRefire c" and "firing c"
  shows "onEntityDefinitionChanged fire e c = onEntityDefinitionChanged markRefire e c"
  using assms by (simp add: onEntityDefinitionChanged_def Let_def)

lemma reentrant_resumeEvents:
  assumes "\<And>c. firing c \<Longrightarrow> fire c = markRefire c" and "firing c"
  shows "resumeEvents fire c = resumeEvents markRefire c"
  using assms by (simp add: resumeEvents_def)

lemma reentrant_add:
  assumes "\<And>c. firing c \<Longrightarrow> fire c = markRefire c" and "firing c"
  shows "add fire e c = add markRefire e c"
  using assms by (simp add: add_def Let_def)

lemma reentrant_removeById:
  assumes "\<And>c. firing c \<Longrightarrow> fire c = markRefire c" and "firing c"
  shows "removeById fire k c = removeById markRefire k c"
  using assms by (simp add: removeById_def Let_def split: option.splits)

lemma reentrant_removeAll:
  assumes "\<And>c. firing c \<Longrightarrow> fire c = markRefire c" and "firing c"
  shows "removeAll fire c = removeAll markRefire c"
  using assms by (simp add: removeAll_def Let_def stageRemoveAll_fields)

lemma reentrant_getOrCreateEntity:
  assumes "\<And>c. firing c \<Longrightarrow> fire c = markRefire c" and "firing c"
  shows "getOrCreateEntity fire k c = getOrCreateEntity markRefire k c"
  using assms reentrant_add [of fire c "newEntity k"]
  by (simp add: getOrCreateEntity_def split: option.splits)

lemma reentrant_raiseDefinitionChanged:
  assumes "\<And>c. firing c \<Longrightarrow> fire c = markRefire c" and "firing c"
  shows "raiseDefinitionChanged fire e p x y c = raiseDefinitionChanged markRefire e p x y c"
  using assms by (simp add: raiseDefinitionChanged_def onEntityDefinitionChanged_def Let_def)

lemma reentrant_raiseIsShowing:
  assumes nf: "\<And>c. firing c \<Longrightarrow> fire c = markRefire c"
  shows "firing c \<Longrightarrow> raiseIsShowing fire ps c = raiseIsShowing markRefire ps c"
proof (induction ps arbitrary: c)
  case Nil
  show ?case by simp
next
  case (Cons p ps)
  obtain oldShow entity where p: "p = (oldShow, entity)" by (cases p)
  let ?r = "raiseDefinitionChanged markRefire entity ''isShowing'' (isShowing c entity) oldShow c"
  have e: "raiseDefinitionChanged fire entity ''isShowing'' (isShowing c entity) oldShow c = ?r"
    using nf Cons.prems by (rule reentrant_raiseDefinitionChanged)
  have n: "outcomeState (nestedStep c) ?r"
    by (rule nested_raiseDefinitionChanged [OF Cons.prems])
  show ?case
  proof (cases "oldShow = isShowing c entity")
    case True
    show ?thesis
      unfolding p raiseIsShowing_unchanged [OF True] by (rule Cons.IH [OF Cons.prems])
  next
    case False
    have "raiseIsShowing fire ps c' = raiseIsShowing markRefire ps c'"
      if "?r = Returned u c'" for u c'
    proof -
      from n that have "firing c'" by (simp add: nestedStep_def)
      then show ?thesis by (rule Cons.IH)
    qed
    then show ?thesis
      unfolding p raiseIsShowing_changed [OF False] e by (simp split: outcome.splits)
  qed
qed

lemma reentrant_setShow:
  assumes nf: "\<And>c. firing c \<Longrightarrow> fire c = markRefire c" and f: "firing c"
  shows "setShow fire v c = setShow markRefire v c"
proof (cases "v = collectionShow c")
  case True
  show ?thesis unfolding setShow_same [OF True] by simp
next
  case False
  let ?c2 = "(suspendEvents c)\<lparr>collectionShow := v\<rparr>"
  let ?ps = "zip (map (isShowing (suspendEvents c)) (aaValues (entities (suspendEvents c))))
                 (aaValues (entities (suspendEvents c)))"
  have f2: "firing ?c2" using f by (simp add: suspendEvents_def)
  have e: "raiseIsShowing fire ?ps ?c2 = raiseIsShowing markRefire ?ps ?c2"
    using nf f2 by (rule reentrant_raiseIsShowing)
  have n: "outcomeState (nestedStep ?c2) (raiseIsShowing markRefire ?ps ?c2)"
    by (rule nested_raiseIsShowing [OF f2])
  have "resumeEvents fire c3 = resumeEvents markRefire c3"
    if "raiseIsShowing markRefire ?ps ?c2 = Returned u c3" for u c3
  proof -
    from n that have "firing c3" by (simp add: nestedStep_def)
    with nf show ?thesis by (rule reentrant_resumeEvents)
  qed
  then show ?thesis
    unfolding setShow_toggle [OF False] e by (simp split: outcome.splits)
qed

lemma reentrant_applyOp:
  assumes nf: "\<And>c. firing c \<Longrightarrow> fire c = markRefire c" and f: "firing c"
  shows "applyOp fire x c = applyOp markRefire x c"
proof (cases x)
  case (OpAdd e)
  show ?thesis unfolding OpAdd applyOp.simps
    using nf f by (simp only: reentrant_add [of fire c e])
next
  case (OpRemove e)
  show ?thesis unfolding OpRemove applyOp.simps remove_def
    using nf f by (simp only: reentrant_removeById [of fire c "entityId e"])
next
  case (OpRemoveById k)
  show ?thesis unfolding OpRemoveById applyOp.simps
    using nf f by (simp only: reentrant_removeById [of fire c k])
next
  case OpRemoveAll
  show ?thesis unfolding OpRemoveAll applyOp.simps
    using nf f by (rule reentrant_removeAll)
next
  case (OpGetOrCreateEntity k)
  show ?thesis unfolding OpGetOrCreateEntity applyOp.simps
    using nf f by (simp only: reentrant_getOrCreateEntity [of fire c k])
next
  case OpSuspendEvents
  show ?thesis unfolding OpSuspendEvents applyOp.simps by (rule refl)
next
  case OpResumeEvents
  show ?thesis unfolding OpResumeEvents applyOp.simps
    using nf f by (rule reentrant_resumeEvents)
next
  case (OpSetShow v)
  show ?thesis unfolding OpSetShow applyOp.simps
    using nf f by (rule reentrant_setShow)
next
  case (OpEntityChanged e)
  show ?thesis unfolding OpEntityChanged applyOp.simps
    using nf f by (rule reentrant_onEntityDefinitionChanged)
qed

lemma reentrant_runOps:
  assumes nf: "\<And>c. firing c \<Longrightarrow> fire c = markRefire c"
  shows "firing c \<Longrightarrow> runOps fire xs c = runOps markRefire xs c"
proof (induction xs arbitrary: c)
  case Nil
  show ?case by simp
next
  case (Cons x xs)
  have e: "applyOp fire x c = applyOp markRefire x c"
    using nf Cons.prems by (rule reentrant_applyOp)
  have n: "outcomeState (nestedStep c) (applyOp markRefire x c)"
    by (rule nested_applyOp [OF Cons.prems])
  show ?case
  proof (cases "applyOp markRefire x c")
    case (Returned u c')
    with n have "firing c'" by (simp add: nestedStep_def)
    then have "runOps fire xs c' = runOps markRefire xs c'" by (rule Cons.IH)
    then show ?thesis using e Returned by simp
  next
    case (Thrown y c')
    then show ?thesis using e by simp
  next
    case OutOfFuel
    then show ?thesis using e by simp
  qed
qed

lemma reentrant_raiseEvent:
  assumes nf: "\<And>c. firing c \<Longrightarrow> fire c = markRefire c"
  shows "firing c \<Longrightarrow> raiseEvent fire ls b c = raiseEvent markRefire ls b c"
proof (induction ls arbitrary: c)
  case Nil
  show ?case by simp
next
  case (Cons l ls)
  have e: "runOps fire (l c b) c = runOps markRefire (l c b) c"
    using nf Cons.prems by (rule reentrant_runOps)
  have n: "outcomeState (nestedStep c) (runOps markRefire (l c b) c)"
    by (rule nested_runOps [OF Cons.prems])
  show ?case
  proof (cases "runOps markRefire (l c b) c")
    case (Returned u c')
    with n have "firing c'" by (simp add: nestedStep_def)
    then have "raiseEvent fire ls b c' = raiseEvent markRefire ls b c'" by (rule Cons.IH)
    then show ?thesis using e Returned by simp
  next
    case (Thrown y c')
    then show ?thesis using e by simp
  next
    case OutOfFuel
    then show ?thesis using e by simp
  qed
qed

lemma fire_is_markRefire: "firing c \<Longrightarrow> fireChangedEvent n ls c = markRefire c"
  by (simp add: fire_reentrant markRefire_def)

lemma firePass_fuel:
  "firing c \<Longrightarrow> firePass (fireChangedEvent n ls) ls c = firePass markRefire ls c"
  unfolding firePass_def Let_def
  by (rule reentrant_raiseEvent) (simp_all add: fire_is_markRefire)

lemma firePass_markRefire:
  assumes "firing c"
  shows "outcomeState (passDone c) (firePass markRefire ls c)"
proof -
  let ?c2 = "c\<lparr>refire := False, addedEntities := [], removedEntities := [],
               changedEntities := [],
               collectionChanged := collectionChanged c @ [snapshot c]\<rparr>"
  have e: "firePass markRefire ls c = raiseEvent markRefire ls (snapshot c) ?c2"
    by (simp add: firePass_def Let_def snapshot_def aaRemoveAll_def)
  have "firing ?c2" using assms by simp
  then have "outcomeState (nestedStep ?c2) (raiseEvent markRefire ls (snapshot c) ?c2)"
    by (rule nested_raiseEvent)
  then have "outcomeState (passDone c) (raiseEvent markRefire ls (snapshot c) ?c2)"
    by (rule outcomeState_mono) (auto simp: nestedStep_def passDone_def stagingEmpty_def)
  then show ?thesis by (simp add: e)
qed

lemma firePass_passDone:
  "firing c \<Longrightarrow> outcomeState (passDone c) (firePass (fireChangedEvent n ls) ls c)"
  by (simp add: firePass_fuel firePass_markRefire)


lemma fireLoop_Suc_firing:
  "firing c \<Longrightarrow>
   fireLoop (Suc n) ls c =
     (case firePass markRefire ls c of
        Returned u c' \<Rightarrow> if refire c' then fireLoop n ls c' else Returned () c'
      | Thrown e c' \<Rightarrow> Thrown e c'
      | OutOfFuel \<Rightarrow> OutOfFuel)"
  by (simp add: fireLoop.simps firePass_fuel)

lemma fireLoop_returned:
  "firing c \<Longrightarrow> fireLoop n ls c = Returned u c' \<Longrightarrow> loopDone c c'"
proof (induction n arbitrary: c)
  case 0
  then show ?case by (simp add: fireLoop_0)
next
  case (Suc n)
  have p: "outcomeState (passDone c) (firePass markRefire ls c)"
    by (rule firePass_markRefire [OF Suc.prems(1)])
  show ?case
  proof (cases "firePass markRefire ls c")
    case (Returned v c1)
    with p have d: "passDone c c1" by simp
    show ?thesis
    proof (cases "refire c1")
      case True
      with Suc.prems Returned have "fireLoop n ls c1 = Returned u c'"
        by (simp add: fireLoop_Suc_firing)
      moreover have "firing c1" using d by (simp add: passDone_def)
      ultimately have "loopDone c1 c'" by (rule Suc.IH [rotated])
      then show ?thesis using d by (auto simp: loopDone_def passDone_def)
    next
      case False
      with Suc.prems Returned have "c' = c1" by (simp add: fireLoop_Suc_firing)
      then show ?thesis using d False by (simp add: loopDone_def passDone_def)
    qed
  next
    case (Thrown e c1)
    with Suc.prems show ?thesis by (simp add: fireLoop_Suc_firing)
  next
    case OutOfFuel
    with Suc.prems show ?thesis by (simp add: fireLoop_Suc_firing)
  qed
qed


lemma fire_suspended:
  "\<not> firing c \<Longrightarrow> suspendCount c \<noteq> 0 \<Longrightarrow> fireChangedEvent n ls c = Returned () c"
  by (simp add: fireChangedEvent.simps)

lemma fire_nothing_staged:
  "\<not> firing c \<Longrightarrow> stagingEmpty c \<Longrightarrow> fireChangedEvent n ls c = Returned () c"
  by (simp add: fireChangedEvent.simps stagingEmpty_def)

lemma fire_delivers:
  "\<not> firing c \<Longrightarrow> suspendCount c = 0 \<Longrightarrow> \<not> stagingEmpty c \<Longrightarrow>
   fireChangedEvent n ls c =
     (case fireLoop n ls (c\<lparr>firing := True\<rparr>) of
        Returned u c' \<Rightarrow> Returned () (c'\<lparr>firing := False\<rparr>)
      | Thrown e c' \<Rightarrow> Thrown e c'
      | OutOfFuel \<Rightarrow> OutOfFuel)"
  by (auto simp: fireChangedEvent.simps stagingEmpty_def)

lemma fire_returned:
  assumes "\<not> firing c" "suspendCount c = 0" "\<not> stagingEmpty c"
    and "fireChangedEvent n ls c = Returned u c'"
  shows "\<not> firing c' \<and> \<not> refire c' \<and> stagingEmpty c'
         \<and> (\<exists>rest. collectionChanged c' = collectionChanged c @ snapshot c # rest)"
proof (cases "fireLoop n ls (c\<lparr>firing := True\<rparr>)")
  case (Returned v c1)
  have "loopDone (c\<lparr>firing := True\<rparr>) c1"
    by (rule fireLoop_returned [OF _ Returned]) simp
  moreover have "c' = c1\<lparr>firing := False\<rparr>"
    using assms Returned by (simp add: fire_delivers)
  ultimately show ?thesis by (simp add: loopDone_def stagingEmpty_def snapshot_def)
next
  case (Thrown e c1)
  then show ?thesis using assms by (simp add: fire_delivers)
next
  case OutOfFuel
  then show ?thesis using assms by (simp add: fire_delivers)
qed



lemma fire_deferred:
  "firing x \<or> suspendCount x \<noteq> 0 \<Longrightarrow>
   fireChangedEvent n ls x = Returned () (x\<lparr>refire := refire x \<or> firing x\<rparr>)"
  by (cases "firing x") (simp_all add: fire_reentrant fire_suspended)





text \<open>
  C2. Adding an entity whose id is already a key of the collection throws the
  \<^verbatim>\<open>DeveloperError\<close> for a duplicate id, and the collection at the throw is the
  collection before the call: the entity mapping and the three staging sets are unchanged.
\<close>

theorem add_existing_id_fails:
  "aaContains (entityId e) (entities c) \<Longrightarrow>
   add (fireChangedEvent n ls) e c = Thrown (DuplicateKeyError (entityId e)) c"
  by (simp add: add_def Let_def)

theorem add_existing_id_fails_witness:
  "add (fireChangedEvent (Suc 0) []) entityA EntityCollection
     = Returned entityA
         (holdingA\<lparr>collectionChanged :=
            [\<lparr>addedArray = [entityA], removedArray = [], changedArray = []\<rparr>]\<rparr>)
   \<and> aaContains (entityId entityA) (entities holdingA)
   \<and> add (fireChangedEvent (Suc 0) []) entityA holdingA
       = Thrown (DuplicateKeyError ''a'') holdingA
   \<and> aaValues (entities holdingA) = [entityA]"
proof -
  have a: "add (fireChangedEvent (Suc 0) []) entityA EntityCollection
     = Returned entityA
         (holdingA\<lparr>collectionChanged :=
            [\<lparr>addedArray = [entityA], removedArray = [], changedArray = []\<rparr>]\<rparr>)"
    by (simp add: add_def Let_def EntityCollection_def holdingA_def entityA_def aaContains_def
        aaSet_def aaRemove_def aaValues_def aaRemoveAll_def fireChangedEvent.simps
        fireLoop.simps firePass_def)
  have b: "aaContains (entityId entityA) (entities holdingA)"
    by (simp add: holdingA_def entityA_def aaContains_def)
  have c: "aaValues (entities holdingA) = [entityA]"
    by (simp add: holdingA_def aaValues_def)
  from a b c add_existing_id_fails [OF b, of "Suc 0" "[]"] show ?thesis
    by (simp add: entityA_def)
qed




text \<open>
  C9. With no delivery in progress and the three staging sets empty,
  \<^verbatim>\<open>fireChangedEvent\<close> returns the collection as it is: no event is raised and no
  subscriber is called. The same holds for a \<^verbatim>\<open>resumeEvents\<close> on such a collection,
  also when it brings the counter to zero: only the counter changes. Whenever a top-level
  call does raise an event, the first batch is the snapshot of a staging that is not empty.
\<close>

theorem empty_flush_raises_nothing:
  "(\<not> firing c \<and> stagingEmpty c \<longrightarrow>
      fireChangedEvent n ls c = Returned () c)
   \<and> (\<not> firing c \<and> stagingEmpty c \<and> suspendCount c \<noteq> 0 \<longrightarrow>
      resumeEvents (fireChangedEvent n ls) c
        = Returned () (c\<lparr>suspendCount := suspendCount c - 1\<rparr>)
      \<and> collectionChanged (c\<lparr>suspendCount := suspendCount c - 1\<rparr>) = collectionChanged c)
   \<and> (\<not> firing c \<longrightarrow>
        (\<forall>c'. fireChangedEvent n ls c = Returned () c'
               \<and> collectionChanged c' \<noteq> collectionChanged c \<longrightarrow>
             \<not> stagingEmpty c
             \<and> (\<exists>rest. collectionChanged c' = collectionChanged c @ snapshot c # rest)))"
proof -
  have a: "fireChangedEvent n ls c = Returned () c" if "\<not> firing c" "stagingEmpty c"
    using that by (rule fire_nothing_staged)
  have b: "resumeEvents (fireChangedEvent n ls) c
        = Returned () (c\<lparr>suspendCount := suspendCount c - 1\<rparr>)"
    if "\<not> firing c" "stagingEmpty c" "suspendCount c \<noteq> 0"
    using that fire_nothing_staged [of "c\<lparr>suspendCount := suspendCount c - 1\<rparr>" n ls]
    by (simp add: resumeEvents_def stagingEmpty_def)
  have d: "\<not> stagingEmpty c
             \<and> (\<exists>rest. collectionChanged c' = collectionChanged c @ snapshot c # rest)"
    if nf: "\<not> firing c" and r: "fireChangedEvent n ls c = Returned () c'"
      and ne: "collectionChanged c' \<noteq> collectionChanged c" for c'
  proof -
    have s: "\<not> stagingEmpty c"
      using nf r ne fire_nothing_staged [of c n ls] by auto
    have z: "suspendCount c = 0"
      using nf r ne fire_suspended [of c n ls] by auto
    from fire_returned [OF nf z s r] s show ?thesis by simp
  qed
  from a b d show ?thesis by simp
qed

theorem empty_flush_raises_nothing_witness:
  "\<not> firing (EntityCollection\<lparr>suspendCount := 1\<rparr>)
   \<and> stagingEmpty (EntityCollection\<lparr>suspendCount := 1\<rparr>)
   \<and> fireChangedEvent (Suc 0) [\<lambda>c b. [OpRemoveAll]] EntityCollection
       = Returned () EntityCollection
   \<and> resumeEvents (fireChangedEvent (Suc 0) [\<lambda>c b. [OpRemoveAll]])
         (EntityCollection\<lparr>suspendCount := 1\<rparr>)
       = Returned () EntityCollection"
proof -
  have h: "\<not> firing (EntityCollection\<lparr>suspendCount := 1\<rparr>)
           \<and> stagingEmpty (EntityCollection\<lparr>suspendCount := 1\<rparr>)
           \<and> suspendCount (EntityCollection\<lparr>suspendCount := 1\<rparr>) \<noteq> 0"
    by (simp add: EntityCollection_def stagingEmpty_def)
  have h0: "\<not> firing EntityCollection \<and> stagingEmpty EntityCollection"
    by (simp add: EntityCollection_def stagingEmpty_def)
  from h0 empty_flush_raises_nothing [of EntityCollection "Suc 0" "[\<lambda>c b. [OpRemoveAll]]"]
  have a: "fireChangedEvent (Suc 0) [\<lambda>c b. [OpRemoveAll]] EntityCollection
       = Returned () EntityCollection" by blast
  from h empty_flush_raises_nothing
         [of "EntityCollection\<lparr>suspendCount := 1\<rparr>" "Suc 0" "[\<lambda>c b. [OpRemoveAll]]"]
  have "resumeEvents (fireChangedEvent (Suc 0) [\<lambda>c b. [OpRemoveAll]])
         (EntityCollection\<lparr>suspendCount := 1\<rparr>)
       = Returned () (EntityCollection\<lparr>suspendCount := 1\<rparr>
            \<lparr>suspendCount := suspendCount (EntityCollection\<lparr>suspendCount := 1\<rparr>) - 1\<rparr>)"
    by blast
  then have b: "resumeEvents (fireChangedEvent (Suc 0) [\<lambda>c b. [OpRemoveAll]])
         (EntityCollection\<lparr>suspendCount := 1\<rparr>)
       = Returned () EntityCollection"
    by (simp add: EntityCollection_def)
  from h a b show ?thesis by simp
qed






lemma aaContains_iff: "aaContains k a \<longleftrightarrow> k \<in> fst ` set a"
  by (simp add: aaContains_def map_of_eq_None_iff)

lemma aaRemove_absent: "\<not> aaContains k a \<Longrightarrow> aaRemove k a = (False, a)"
  by (simp add: aaRemove_def)

lemma aaSet_absent: "\<not> aaContains k a \<Longrightarrow> aaSet k v a = a @ [(k, v)]"
  by (simp add: aaSet_def aaRemove_def aaContains_def)

lemma aaGet_appended: "\<not> aaContains k a \<Longrightarrow> aaGet k (a @ [(k, v)]) = Some v"
  by (simp add: aaGet_def aaContains_def map_add_def)

lemma filter_absent: "\<not> aaContains k a \<Longrightarrow> filter (\<lambda>kv. fst kv \<noteq> k) a = a"
  by (induction a) (auto simp: aaContains_iff)

lemma aaRemove_appended: "\<not> aaContains k a \<Longrightarrow> aaRemove k (a @ [(k, v)]) = (True, a)"
  by (simp add: aaRemove_def filter_absent) (simp add: aaContains_def map_add_def)

lemma keyedById_values:
  "keyedById a \<Longrightarrow> \<not> aaContains (entityId e) a \<Longrightarrow> e \<notin> set (aaValues a)"
  by (force simp: keyedById_def aaContains_iff aaValues_def list_all_iff)

lemma aaRemove_aaSet: "aaRemove k (aaSet k v a) = (True, filter (\<lambda>kv. fst kv \<noteq> k) a)"
  by (auto simp: aaSet_def aaRemove_def aaContains_def map_add_def split: option.splits)

lemma aaContains_filtered: "\<not> aaContains k (filter (\<lambda>kv. fst kv \<noteq> k) a)"
  by (auto simp: aaContains_iff)

lemma keyedById_filter: "keyedById a \<Longrightarrow> keyedById (filter P a)"
  by (simp add: keyedById_def list_all_iff)

text \<open>
  The code keeps every array keyed by id: the arrays of a new collection are, and if they
  are before an operation they are after it, however the call ends.
\<close>

lemma keyedById_aaRemove: "keyedById a \<Longrightarrow> keyedById (snd (aaRemove k a))"
  by (simp add: aaRemove_def keyedById_filter)

lemma keyedById_append: "keyedById (a @ b) \<longleftrightarrow> keyedById a \<and> keyedById b"
  by (simp add: keyedById_def)

lemma keyedById_aaSet: "keyedById a \<Longrightarrow> entityId v = k \<Longrightarrow> keyedById (aaSet k v a)"
  using keyedById_aaRemove [of a k]
  by (simp add: aaSet_def keyedById_append) (simp add: keyedById_def)

lemma keyedById_aaGet: "keyedById a \<Longrightarrow> aaGet k a = Some v \<Longrightarrow> entityId v = k"
  using map_of_SomeD [of a k v] by (force simp: keyedById_def aaGet_def list_all_iff)

lemma whenDone_discard [simp]: "whenDone P (discard r) = whenDone P r"
  by (cases r) (auto simp: discard_def)

lemma keyed_stageRemoveAll: "keyedAll c \<Longrightarrow> keyedAll (stageRemoveAll xs c)"
  by (induction xs arbitrary: c) (simp_all add: keyedAll_def keyedById_aaSet)

lemma keyed_onEntityDefinitionChanged:
  assumes "\<And>x. keyedAll x \<Longrightarrow> whenDone keyedAll (fire x)" and "keyedAll c"
  shows "whenDone keyedAll (onEntityDefinitionChanged fire e c)"
  unfolding onEntityDefinitionChanged_def Let_def
  using assms(2) by (intro assms(1)) (simp add: keyedAll_def keyedById_aaSet)

lemma keyed_resumeEvents:
  assumes "\<And>x. keyedAll x \<Longrightarrow> whenDone keyedAll (fire x)" and "keyedAll c"
  shows "whenDone keyedAll (resumeEvents fire c)"
proof (cases "suspendCount c = 0")
  case True
  then show ?thesis using assms(2) by (simp add: resumeEvents_def)
next
  case False
  have "whenDone keyedAll (fire (c\<lparr>suspendCount := suspendCount c - 1\<rparr>))"
    using assms(2) by (intro assms(1)) (simp add: keyedAll_def)
  then show ?thesis using False by (simp add: resumeEvents_def)
qed

lemma keyed_add:
  assumes "\<And>x. keyedAll x \<Longrightarrow> whenDone keyedAll (fire x)" and "keyedAll c"
  shows "whenDone keyedAll (add fire e c)"
proof (cases "aaContains (entityId e) (entities c)")
  case True
  then show ?thesis using assms(2) by (simp add: add_def)
next
  case False
  define c3 where "c3 =
     (if \<not> fst (aaRemove (entityId e) (removedEntities c))
      then c\<lparr>entities := aaSet (entityId e) e (entities c),
             removedEntities := snd (aaRemove (entityId e) (removedEntities c)),
             addedEntities := aaSet (entityId e) e (addedEntities c)\<rparr>
      else c\<lparr>entities := aaSet (entityId e) e (entities c),
             removedEntities := snd (aaRemove (entityId e) (removedEntities c))\<rparr>)"
  have "keyedAll c3"
    using assms(2) by (simp add: c3_def keyedAll_def keyedById_aaSet keyedById_aaRemove)
  then have w: "whenDone keyedAll (fire c3)" by (rule assms(1))
  have eq: "add fire e c =
      (case fire c3 of Returned u c' \<Rightarrow> Returned e c' | Thrown x c' \<Rightarrow> Thrown x c'
       | OutOfFuel \<Rightarrow> OutOfFuel)"
    using False by (simp add: add_def Let_def c3_def)
  show ?thesis unfolding eq using w by (cases "fire c3") simp_all
qed

lemma keyed_removeById:
  assumes "\<And>x. keyedAll x \<Longrightarrow> whenDone keyedAll (fire x)" and "keyedAll c"
  shows "whenDone keyedAll (removeById fire k c)"
proof (cases "aaGet k (entities c)")
  case None
  then show ?thesis using assms(2) by (simp add: removeById_def)
next
  case (Some entity)
  have id: "entityId entity = k"
    using assms(2) Some by (auto simp: keyedAll_def dest: keyedById_aaGet)
  define c4 where "c4 =
     (let c1 = c\<lparr>entities := snd (aaRemove k (entities c))\<rparr>;
          r = aaRemove k (addedEntities c1);
          c2 = c1\<lparr>addedEntities := snd r\<rparr>;
          c3 = (if \<not> fst r
                then c2\<lparr>removedEntities := aaSet k entity (removedEntities c2),
                        changedEntities := snd (aaRemove k (changedEntities c2))\<rparr>
                else c2)
      in c3\<lparr>entities := snd (aaRemove k (entities c3))\<rparr>)"
  have "keyedAll c4"
    using assms(2) id
    by (simp add: c4_def Let_def keyedAll_def keyedById_aaSet keyedById_aaRemove)
  then have w: "whenDone keyedAll (fire c4)" by (rule assms(1))
  have eq: "removeById fire k c =
      (case fire c4 of Returned u c' \<Rightarrow> Returned True c' | Thrown x c' \<Rightarrow> Thrown x c'
       | OutOfFuel \<Rightarrow> OutOfFuel)"
    using Some by (simp add: removeById_def c4_def Let_def)
  show ?thesis unfolding eq using w by (cases "fire c4") simp_all
qed

lemma keyed_removeAll:
  assumes "\<And>x. keyedAll x \<Longrightarrow> whenDone keyedAll (fire x)" and "keyedAll c"
  shows "whenDone keyedAll (removeAll fire c)"
  unfolding removeAll_def Let_def
  using keyed_stageRemoveAll [OF assms(2), of "aaValues (entities c)"]
  by (intro assms(1)) (simp add: keyedAll_def aaRemoveAll_def keyedById_def)

lemma keyed_getOrCreateEntity:
  assumes "\<And>x. keyedAll x \<Longrightarrow> whenDone keyedAll (fire x)" and "keyedAll c"
  shows "whenDone keyedAll (getOrCreateEntity fire k c)"
proof (cases "aaGet k (entities c)")
  case (Some entity)
  then show ?thesis using assms(2) by (simp add: getOrCreateEntity_def)
next
  case None
  have w: "whenDone keyedAll (add fire (newEntity k) c)"
    using assms by (rule keyed_add)
  have eq: "getOrCreateEntity fire k c =
      (case add fire (newEntity k) c of
         Returned r c' \<Rightarrow> Returned (newEntity k) c'
       | Thrown e c' \<Rightarrow> Thrown e c'
       | OutOfFuel \<Rightarrow> OutOfFuel)"
    using None by (simp add: getOrCreateEntity_def)
  show ?thesis unfolding eq using w by (cases "add fire (newEntity k) c") simp_all
qed

lemma keyed_raiseDefinitionChanged:
  assumes "\<And>x. keyedAll x \<Longrightarrow> whenDone keyedAll (fire x)" and "keyedAll c"
  shows "whenDone keyedAll (raiseDefinitionChanged fire e p x y c)"
  unfolding raiseDefinitionChanged_def
  using assms(2) by (intro keyed_onEntityDefinitionChanged assms(1)) (simp_all add: keyedAll_def)

lemma keyed_raiseIsShowing:
  assumes pf: "\<And>x. keyedAll x \<Longrightarrow> whenDone keyedAll (fire x)"
  shows "keyedAll c \<Longrightarrow> whenDone keyedAll (raiseIsShowing fire ps c)"
proof (induction ps arbitrary: c)
  case Nil
  then show ?case by simp
next
  case (Cons p ps)
  obtain oldShow entity where p: "p = (oldShow, entity)" by (cases p)
  let ?r = "raiseDefinitionChanged fire entity ''isShowing'' (isShowing c entity) oldShow c"
  show ?case
  proof (cases "oldShow = isShowing c entity")
    case True
    show ?thesis
      unfolding p raiseIsShowing_unchanged [OF True] by (rule Cons.IH [OF Cons.prems])
  next
    case False
    have w: "whenDone keyedAll ?r"
      using pf Cons.prems by (rule keyed_raiseDefinitionChanged)
    show ?thesis
    proof (cases ?r)
      case (Returned u c')
      with w have "keyedAll c'" by simp
      then have "whenDone keyedAll (raiseIsShowing fire ps c')" by (rule Cons.IH)
      then show ?thesis unfolding p raiseIsShowing_changed [OF False] Returned by simp
    next
      case (Thrown x c')
      with w show ?thesis unfolding p raiseIsShowing_changed [OF False] by simp
    next
      case OutOfFuel
      then show ?thesis unfolding p raiseIsShowing_changed [OF False] by simp
    qed
  qed
qed

lemma keyed_setShow:
  assumes pf: "\<And>x. keyedAll x \<Longrightarrow> whenDone keyedAll (fire x)" and k: "keyedAll c"
  shows "whenDone keyedAll (setShow fire v c)"
proof (cases "v = collectionShow c")
  case True
  show ?thesis unfolding setShow_same [OF True] using k by simp
next
  case False
  let ?c2 = "(suspendEvents c)\<lparr>collectionShow := v\<rparr>"
  let ?ps = "zip (map (isShowing (suspendEvents c)) (aaValues (entities (suspendEvents c))))
                 (aaValues (entities (suspendEvents c)))"
  have "keyedAll ?c2" using k by (simp add: keyedAll_def suspendEvents_def)
  with pf have w: "whenDone keyedAll (raiseIsShowing fire ?ps ?c2)"
    by (rule keyed_raiseIsShowing)
  show ?thesis
  proof (cases "raiseIsShowing fire ?ps ?c2")
    case (Returned u c3)
    with w have "keyedAll c3" by simp
    with pf have "whenDone keyedAll (resumeEvents fire c3)" by (rule keyed_resumeEvents)
    then show ?thesis unfolding setShow_toggle [OF False] Returned by simp
  next
    case (Thrown x c3)
    with w show ?thesis unfolding setShow_toggle [OF False] by simp
  next
    case OutOfFuel
    then show ?thesis unfolding setShow_toggle [OF False] by simp
  qed
qed

lemma keyed_applyOp:
  assumes pf: "\<And>x. keyedAll x \<Longrightarrow> whenDone keyedAll (fire x)" and k: "keyedAll c"
  shows "whenDone keyedAll (applyOp fire x c)"
proof (cases x)
  case (OpAdd e)
  show ?thesis unfolding OpAdd using pf k by (simp add: keyed_add)
next
  case (OpRemove e)
  show ?thesis unfolding OpRemove using pf k by (simp add: remove_def keyed_removeById)
next
  case (OpRemoveById i)
  show ?thesis unfolding OpRemoveById using pf k by (simp add: keyed_removeById)
next
  case OpRemoveAll
  show ?thesis unfolding OpRemoveAll using pf k by (simp add: keyed_removeAll)
next
  case (OpGetOrCreateEntity i)
  show ?thesis unfolding OpGetOrCreateEntity using pf k by (simp add: keyed_getOrCreateEntity)
next
  case OpSuspendEvents
  show ?thesis unfolding OpSuspendEvents using k by (simp add: keyedAll_def suspendEvents_def)
next
  case OpResumeEvents
  show ?thesis unfolding OpResumeEvents using pf k by (simp add: keyed_resumeEvents)
next
  case (OpSetShow v)
  show ?thesis unfolding OpSetShow using pf k by (simp add: keyed_setShow)
next
  case (OpEntityChanged e)
  show ?thesis unfolding OpEntityChanged using pf k
    by (simp add: keyed_onEntityDefinitionChanged)
qed

lemma keyed_runOps:
  assumes pf: "\<And>x. keyedAll x \<Longrightarrow> whenDone keyedAll (fire x)"
  shows "keyedAll c \<Longrightarrow> whenDone keyedAll (runOps fire xs c)"
proof (induction xs arbitrary: c)
  case Nil
  then show ?case by simp
next
  case (Cons x xs)
  have "whenDone keyedAll (applyOp fire x c)"
    using pf Cons.prems by (rule keyed_applyOp)
  then show ?case using Cons.IH by (auto split: outcome.splits)
qed

lemma keyed_raiseEvent:
  assumes pf: "\<And>x. keyedAll x \<Longrightarrow> whenDone keyedAll (fire x)"
  shows "keyedAll c \<Longrightarrow> whenDone keyedAll (raiseEvent fire ls b c)"
proof (induction ls arbitrary: c)
  case Nil
  then show ?case by simp
next
  case (Cons l ls)
  have "whenDone keyedAll (runOps fire (l c b) c)"
    using pf Cons.prems by (rule keyed_runOps)
  then show ?case using Cons.IH by (auto split: outcome.splits)
qed

lemma keyed_firePass:
  assumes pf: "\<And>x. keyedAll x \<Longrightarrow> whenDone keyedAll (fire x)" and k: "keyedAll c"
  shows "whenDone keyedAll (firePass fire ls c)"
  unfolding firePass_def Let_def
  using k by (intro keyed_raiseEvent pf) (simp_all add: keyedAll_def aaRemoveAll_def keyedById_def)

lemma keyed_fire_from_loop:
  assumes "\<And>x. keyedAll x \<Longrightarrow> whenDone keyedAll (fireLoop n ls x)" and "keyedAll c"
  shows "whenDone keyedAll (fireChangedEvent n ls c)"
proof -
  have "whenDone keyedAll (fireLoop n ls (c\<lparr>firing := True\<rparr>))"
    using assms(2) by (intro assms(1)) (simp add: keyedAll_def)
  then show ?thesis
    using assms(2)
    by (auto simp: fireChangedEvent.simps keyedAll_def split: outcome.splits)
qed

lemma keyed_fireLoop: "keyedAll c \<Longrightarrow> whenDone keyedAll (fireLoop n ls c)"
proof (induction n arbitrary: c)
  case 0
  show ?case by (simp add: fireLoop_0)
next
  case (Suc n)
  have f: "whenDone keyedAll (fireChangedEvent n ls x)" if "keyedAll x" for x
    using Suc.IH that by (rule keyed_fire_from_loop)
  have "whenDone keyedAll (firePass (fireChangedEvent n ls) ls c)"
    using f Suc.prems by (rule keyed_firePass)
  then show ?case using Suc.IH
    by (auto simp: fireLoop.simps split: outcome.splits)
qed

lemma keyed_fireChangedEvent: "keyedAll c \<Longrightarrow> whenDone keyedAll (fireChangedEvent n ls c)"
  using keyed_fireLoop by (rule keyed_fire_from_loop)

lemma keyed_operations:
  assumes "keyedAll c"
  shows "whenDone keyedAll (applyOp (fireChangedEvent n ls) x c)"
  using keyed_fireChangedEvent assms by (rule keyed_applyOp)

lemma keyed_EntityCollection: "keyedAll EntityCollection"
  by (simp add: keyedAll_def keyedById_def EntityCollection_def)

text \<open>
  C3, as the code has it. In a suspended collection, let \<open>e\<close> be an entity whose id
  is not held by the collection and is not staged as a pending removal. Then
  \<^verbatim>\<open>add(e)\<close> succeeds and the following \<^verbatim>\<open>remove(e)\<close> returns true; after the two
  calls the entity mapping and the removed and changed staging arrays are as before, and
  neither the added nor the removed staging array has an entry under the id of \<open>e\<close>,
  so that (the arrays being keyed by id, as they are in every collection reached from a
  new one by operations of the interface) \<open>e\<close> is in neither list of the snapshot.
  With no delivery in progress and no earlier entry under that id, the collection is the
  one before the two calls, and the resume that brings the counter to zero delivers that
  snapshot; during a delivery the two calls also set \<open>refire\<close>, the resume returns
  at once, and the next pass of the running delivery raises that snapshot.
\<close>

theorem add_then_remove_cancels:
  assumes "suspendCount c \<noteq> 0"
    and "\<not> aaContains (entityId e) (entities c)"
    and "\<not> aaContains (entityId e) (removedEntities c)"
  shows "add (fireChangedEvent n ls) e c = Returned e (afterAdd e c)
     \<and> remove (fireChangedEvent n ls) e (afterAdd e c) = Returned True (afterAddRemove e c)
     \<and> entities (afterAddRemove e c) = entities c
     \<and> removedEntities (afterAddRemove e c) = removedEntities c
     \<and> changedEntities (afterAddRemove e c) = changedEntities c
     \<and> \<not> aaContains (entityId e) (addedEntities (afterAddRemove e c))
     \<and> \<not> aaContains (entityId e) (removedEntities (afterAddRemove e c))
     \<and> (\<not> aaContains (entityId e) (addedEntities c) \<and> \<not> firing c \<longrightarrow> afterAddRemove e c = c)
     \<and> (keyedById (addedEntities c) \<longrightarrow> e \<notin> set (addedArray (snapshot (afterAddRemove e c))))
     \<and> (keyedById (removedEntities c) \<longrightarrow>
          e \<notin> set (removedArray (snapshot (afterAddRemove e c))))
     \<and> (\<not> firing c \<and> suspendCount c = 1 \<and> \<not> stagingEmpty (afterAddRemove e c) \<longrightarrow>
          (\<forall>c'. resumeEvents (fireChangedEvent n ls) (afterAddRemove e c) = Returned () c' \<longrightarrow>
             (\<exists>rest. collectionChanged c'
                = collectionChanged c @ snapshot (afterAddRemove e c) # rest)))
     \<and> (firing c \<longrightarrow>
          resumeEvents (fireChangedEvent n ls) (afterAddRemove e c)
            = Returned () ((afterAddRemove e c)\<lparr>suspendCount := suspendCount c - 1\<rparr>)
          \<and> outcomeState (passDone ((afterAddRemove e c)\<lparr>suspendCount := suspendCount c - 1\<rparr>))
               (firePass (fireChangedEvent n ls) ls
                  ((afterAddRemove e c)\<lparr>suspendCount := suspendCount c - 1\<rparr>))
          \<and> snapshot ((afterAddRemove e c)\<lparr>suspendCount := suspendCount c - 1\<rparr>)
               = snapshot (afterAddRemove e c))
     \<and> (\<forall>m ls0 ops.
          runOps (fireChangedEvent m ls0) ops EntityCollection = Returned () c \<longrightarrow>
            e \<notin> set (addedArray (snapshot (afterAddRemove e c)))
            \<and> e \<notin> set (removedArray (snapshot (afterAddRemove e c))))"
proof -
  let ?k = "entityId e"
  let ?c1 = "afterAdd e c"
  let ?c2 = "afterAddRemove e c"
  have a: "add (fireChangedEvent n ls) e c = Returned e ?c1"
    using assms
    by (simp add: add_def Let_def aaSet_absent aaRemove_absent fire_deferred afterAdd_def)
  have q1: "firing ?c1 \<or> suspendCount ?c1 \<noteq> 0"
    using assms(1) by (simp add: afterAdd_def)
  have b: "remove (fireChangedEvent n ls) e ?c1 = Returned True ?c2"
    using assms
    by (cases "firing c")
       (simp_all add: remove_def removeById_def Let_def afterAdd_def afterAddRemove_def
          aaGet_appended aaRemove_appended aaRemove_aaSet aaRemove_absent fire_deferred)
  have f: "entities ?c2 = entities c" "removedEntities ?c2 = removedEntities c"
    "changedEntities ?c2 = changedEntities c"
    by (simp_all add: afterAddRemove_def)
  have g: "\<not> aaContains ?k (addedEntities ?c2)" "\<not> aaContains ?k (removedEntities ?c2)"
    using assms(3) by (simp_all add: afterAddRemove_def aaContains_filtered)
  have h: "?c2 = c" if "\<not> aaContains ?k (addedEntities c)" "\<not> firing c"
    using that by (simp add: afterAddRemove_def filter_absent)
  have i: "e \<notin> set (addedArray (snapshot ?c2))" if "keyedById (addedEntities c)"
  proof -
    have "keyedById (addedEntities ?c2)"
      using that by (simp add: afterAddRemove_def keyedById_filter)
    then show ?thesis using g(1) by (simp add: snapshot_def keyedById_values)
  qed
  have j: "e \<notin> set (removedArray (snapshot ?c2))" if "keyedById (removedEntities c)"
    using that g(2) f(2) by (simp add: snapshot_def keyedById_values)
  have r: "\<exists>rest. collectionChanged c' = collectionChanged c @ snapshot ?c2 # rest"
    if "\<not> firing c" "suspendCount c = 1" "\<not> stagingEmpty ?c2"
      and "resumeEvents (fireChangedEvent n ls) ?c2 = Returned () c'" for c'
  proof -
    let ?c0 = "?c2\<lparr>suspendCount := 0\<rparr>"
    from that have "fireChangedEvent n ls ?c0 = Returned () c'"
      by (simp add: resumeEvents_def afterAddRemove_def)
    moreover have "\<not> firing ?c0" "suspendCount ?c0 = 0" "\<not> stagingEmpty ?c0"
      using that by (simp_all add: stagingEmpty_def afterAddRemove_def)
    ultimately show ?thesis
      using fire_returned [of ?c0 n ls "()" c'] by (simp add: snapshot_def afterAddRemove_def)
  qed
  let ?c3 = "?c2\<lparr>suspendCount := suspendCount c - 1\<rparr>"
  have s: "resumeEvents (fireChangedEvent n ls) ?c2 = Returned () ?c3" if "firing c"
    using that assms(1) by (simp add: resumeEvents_def afterAddRemove_def fire_reentrant)
  have t: "outcomeState (passDone ?c3) (firePass (fireChangedEvent n ls) ls ?c3)" if "firing c"
    by (rule firePass_passDone) (simp add: afterAddRemove_def that)
  have u: "snapshot ?c3 = snapshot ?c2" by (simp add: snapshot_def)
  have w: "e \<notin> set (addedArray (snapshot ?c2)) \<and> e \<notin> set (removedArray (snapshot ?c2))"
    if "runOps (fireChangedEvent m ls0) ops EntityCollection = Returned () c" for m ls0 ops
  proof -
    have "whenDone keyedAll (runOps (fireChangedEvent m ls0) ops EntityCollection)"
      using keyed_fireChangedEvent keyed_EntityCollection by (rule keyed_runOps)
    then have "keyedAll c" using that by simp
    then show ?thesis using i j by (simp add: keyedAll_def)
  qed
  from a b f g h i j r s t u w show ?thesis by blast
qed

theorem add_then_remove_cancels_witness:
  "suspendCount pendingRemovalA \<noteq> 0
   \<and> \<not> aaContains (entityId (newEntity ''c'')) (entities pendingRemovalA)
   \<and> \<not> aaContains (entityId (newEntity ''c'')) (removedEntities pendingRemovalA)
   \<and> add (fireChangedEvent (Suc 0) [idle]) (newEntity ''c'') pendingRemovalA
       = Returned (newEntity ''c'')
           (pendingRemovalA\<lparr>entities := [(''c'', newEntity ''c'')],
                             addedEntities := [(''c'', newEntity ''c'')]\<rparr>)
   \<and> remove (fireChangedEvent (Suc 0) [idle]) (newEntity ''c'')
         (pendingRemovalA\<lparr>entities := [(''c'', newEntity ''c'')],
                           addedEntities := [(''c'', newEntity ''c'')]\<rparr>)
       = Returned True pendingRemovalA
   \<and> resumeEvents (fireChangedEvent (Suc 0) [idle]) pendingRemovalA
       = Returned ()
           (EntityCollection\<lparr>collectionChanged :=
              [\<lparr>addedArray = [], removedArray = [entityA, entityB], changedArray = []\<rparr>]\<rparr>)
   \<and> newEntity ''c'' \<notin> set [entityA, entityB]
   \<and> remove (fireChangedEvent (Suc 0) [idle]) (newEntity ''c'')
         (afterAdd (newEntity ''c'') (pendingRemovalA\<lparr>firing := True\<rparr>))
       = Returned True (pendingRemovalA\<lparr>firing := True, refire := True\<rparr>)
   \<and> runOps (fireChangedEvent (Suc 0) [idle]) [OpSuspendEvents, OpAdd entityA] EntityCollection
       = Returned () (suspendEvents stagedA)
   \<and> remove (fireChangedEvent (Suc 0) [idle]) entityB (afterAdd entityB (suspendEvents stagedA))
       = Returned True (suspendEvents stagedA)
   \<and> snapshot (suspendEvents stagedA)
       = \<lparr>addedArray = [entityA], removedArray = [], changedArray = []\<rparr>
   \<and> entityB \<notin> set (addedArray (snapshot (suspendEvents stagedA)))
   \<and> entityB \<notin> set (removedArray (snapshot (suspendEvents stagedA)))"
proof -
  let ?e = "newEntity ''c''"
  let ?s = "suspendEvents stagedA"
  have hs: "suspendCount ?s \<noteq> 0"
    "\<not> aaContains (entityId entityB) (entities ?s)"
    "\<not> aaContains (entityId entityB) (removedEntities ?s)"
    by (simp_all add: suspendEvents_def stagedA_def EntityCollection_def aaContains_def
        entityA_def entityB_def)
  have rs: "runOps (fireChangedEvent (Suc 0) [idle]) [OpSuspendEvents, OpAdd entityA]
        EntityCollection = Returned () ?s"
    by (simp add: add_def Let_def suspendEvents_def stagedA_def EntityCollection_def
        fireChangedEvent.simps discard_def aaContains_def aaSet_def aaRemove_def entityA_def)
  have a4: "afterAddRemove entityB ?s = ?s"
    by (simp add: afterAddRemove_def suspendEvents_def stagedA_def EntityCollection_def
        entityA_def entityB_def)
  have sn: "snapshot ?s = \<lparr>addedArray = [entityA], removedArray = [], changedArray = []\<rparr>"
    by (simp add: snapshot_def suspendEvents_def stagedA_def EntityCollection_def aaValues_def)
  have h: "suspendCount pendingRemovalA \<noteq> 0"
    "\<not> aaContains (entityId ?e) (entities pendingRemovalA)"
    "\<not> aaContains (entityId ?e) (removedEntities pendingRemovalA)"
    by (simp_all add: pendingRemovalA_def EntityCollection_def aaContains_def
        entityA_def entityB_def newEntity_def)
  have hf: "suspendCount (pendingRemovalA\<lparr>firing := True\<rparr>) \<noteq> 0"
    "\<not> aaContains (entityId ?e) (entities (pendingRemovalA\<lparr>firing := True\<rparr>))"
    "\<not> aaContains (entityId ?e) (removedEntities (pendingRemovalA\<lparr>firing := True\<rparr>))"
    using h by simp_all
  have a1: "afterAdd ?e pendingRemovalA
      = pendingRemovalA\<lparr>entities := [(''c'', ?e)], addedEntities := [(''c'', ?e)]\<rparr>"
    by (simp add: afterAdd_def pendingRemovalA_def EntityCollection_def newEntity_def
        aaSet_def aaRemove_def aaContains_def)
  have a2: "afterAddRemove ?e pendingRemovalA = pendingRemovalA"
    by (simp add: afterAddRemove_def pendingRemovalA_def EntityCollection_def)
  have a3: "afterAddRemove ?e (pendingRemovalA\<lparr>firing := True\<rparr>)
      = pendingRemovalA\<lparr>firing := True, refire := True\<rparr>"
    by (simp add: afterAddRemove_def pendingRemovalA_def EntityCollection_def)
  have r: "resumeEvents (fireChangedEvent (Suc 0) [idle]) pendingRemovalA
       = Returned ()
           (EntityCollection\<lparr>collectionChanged :=
              [\<lparr>addedArray = [], removedArray = [entityA, entityB], changedArray = []\<rparr>]\<rparr>)"
    by (simp add: resumeEvents_def fireChangedEvent.simps fireLoop.simps firePass_def Let_def
        pendingRemovalA_def EntityCollection_def aaValues_def aaRemoveAll_def idle_def)
  have n: "?e \<notin> set [entityA, entityB]"
    by (simp add: newEntity_def entityA_def entityB_def)
  from add_then_remove_cancels [OF hs, of "Suc 0" "[idle]"] rs
  have q: "remove (fireChangedEvent (Suc 0) [idle]) entityB (afterAdd entityB ?s)
        = Returned True ?s
     \<and> entityB \<notin> set (addedArray (snapshot ?s))
     \<and> entityB \<notin> set (removedArray (snapshot ?s))"
    unfolding a4 by blast
  from add_then_remove_cancels [OF h, of "Suc 0" "[idle]"]
    add_then_remove_cancels [OF hf, of "Suc 0" "[idle]"] h r n
  have "remove (fireChangedEvent (Suc 0) [idle]) ?e
         (pendingRemovalA\<lparr>entities := [(''c'', ?e)], addedEntities := [(''c'', ?e)]\<rparr>)
       = Returned True pendingRemovalA
     \<and> add (fireChangedEvent (Suc 0) [idle]) ?e pendingRemovalA
       = Returned ?e
           (pendingRemovalA\<lparr>entities := [(''c'', ?e)], addedEntities := [(''c'', ?e)]\<rparr>)
     \<and> remove (fireChangedEvent (Suc 0) [idle]) ?e
         (afterAdd ?e (pendingRemovalA\<lparr>firing := True\<rparr>))
       = Returned True (pendingRemovalA\<lparr>firing := True, refire := True\<rparr>)"
    by (simp add: a1 a2 a3)
  with h r n q rs sn show ?thesis by simp
qed

text \<open>
  C3 as worded holds for every suspended collection. In the epoch below the
  collection holds an entity with id \<open>a\<close>; it is removed, then another entity with the
  same id is added and removed again. The add cancels the pending removal instead of
  staging an addition, so the remove that follows stages a removal: the batch at resume
  has the entity that was added and removed within the epoch in its removed list.
\<close>

theorem add_then_remove_cancels_counterexample:
  "removeById (fireChangedEvent (Suc 0) []) ''a'' (suspendEvents holdingA)
     = Returned True
         (holdingA\<lparr>entities := [], removedEntities := [(''a'', entityA)], suspendCount := 1\<rparr>)
   \<and> add (fireChangedEvent (Suc 0) []) entityA2
         (holdingA\<lparr>entities := [], removedEntities := [(''a'', entityA)], suspendCount := 1\<rparr>)
     = Returned entityA2 (holdingA\<lparr>entities := [(''a'', entityA2)], suspendCount := 1\<rparr>)
   \<and> remove (fireChangedEvent (Suc 0) []) entityA2
         (holdingA\<lparr>entities := [(''a'', entityA2)], suspendCount := 1\<rparr>)
     = Returned True
         (holdingA\<lparr>entities := [], removedEntities := [(''a'', entityA2)], suspendCount := 1\<rparr>)
   \<and> resumeEvents (fireChangedEvent (Suc 0) [])
         (holdingA\<lparr>entities := [], removedEntities := [(''a'', entityA2)], suspendCount := 1\<rparr>)
     = Returned ()
         (EntityCollection\<lparr>collectionChanged :=
            [\<lparr>addedArray = [], removedArray = [entityA2], changedArray = []\<rparr>]\<rparr>)
   \<and> entityA2 \<in> set (removedArray
         \<lparr>addedArray = [], removedArray = [entityA2], changedArray = []\<rparr>)"
  by (simp add: removeById_def remove_def add_def resumeEvents_def suspendEvents_def Let_def
      fireChangedEvent.simps fireLoop.simps firePass_def
      holdingA_def EntityCollection_def entityA_def entityA2_def
      aaContains_def aaGet_def aaSet_def aaRemove_def aaValues_def aaRemoveAll_def)


lemma isShowing_same_show: "collectionShow c' = collectionShow c \<Longrightarrow> isShowing c' e = isShowing c e"
  by (simp add: isShowing_def)

lemma raiseDefinitionChanged_deferred:
  assumes "firing c \<or> suspendCount c \<noteq> 0"
  shows "raiseDefinitionChanged (fireChangedEvent n ls) e p x y c =
     Returned ()
       (c\<lparr>changedEntities :=
            (if aaContains (entityId e) (addedEntities c) then changedEntities c
             else aaSet (entityId e) e (changedEntities c)),
          definitionChanged := definitionChanged c @
            [\<lparr>sigEntity = e, sigProperty = p, sigNew = x, sigOld = y\<rparr>],
          refire := refire c \<or> firing c\<rparr>)"
  using assms
  by (simp add: raiseDefinitionChanged_def onEntityDefinitionChanged_def Let_def fire_deferred)

lemma raiseIsShowing_deferred:
  assumes "firing c \<or> suspendCount c \<noteq> 0"
  shows "raiseIsShowing (fireChangedEvent n ls) (zip (map old es) es) c =
     Returned ()
       (c\<lparr>changedEntities :=
            stageChangedAll (addedEntities c) (filter (\<lambda>e. old e \<noteq> isShowing c e) es)
              (changedEntities c),
          definitionChanged := definitionChanged c @
            map (\<lambda>e. \<lparr>sigEntity = e, sigProperty = ''isShowing'',
                       sigNew = isShowing c e, sigOld = old e\<rparr>)
                (filter (\<lambda>e. old e \<noteq> isShowing c e) es),
          refire := refire c \<or> (firing c \<and> filter (\<lambda>e. old e \<noteq> isShowing c e) es \<noteq> [])\<rparr>)"
  using assms
proof (induction es arbitrary: c)
  case Nil
  show ?case by simp
next
  case (Cons e es)
  show ?case
  proof (cases "old e = isShowing c e")
    case True
    have "raiseIsShowing (fireChangedEvent n ls) (zip (map old (e # es)) (e # es)) c
            = raiseIsShowing (fireChangedEvent n ls) (zip (map old es) es) c"
      using raiseIsShowing_unchanged [OF True] by simp
    then show ?thesis using Cons.IH [OF Cons.prems] True by simp
  next
    case False
    let ?c1 = "c\<lparr>changedEntities :=
            (if aaContains (entityId e) (addedEntities c) then changedEntities c
             else aaSet (entityId e) e (changedEntities c)),
          definitionChanged := definitionChanged c @
            [\<lparr>sigEntity = e, sigProperty = ''isShowing'',
              sigNew = isShowing c e, sigOld = old e\<rparr>],
          refire := refire c \<or> firing c\<rparr>"
    have q: "firing ?c1 \<or> suspendCount ?c1 \<noteq> 0" using Cons.prems by simp
    have i: "isShowing ?c1 = isShowing c"
      by (rule ext) (simp add: isShowing_def)
    have "raiseIsShowing (fireChangedEvent n ls) (zip (map old (e # es)) (e # es)) c
            = raiseIsShowing (fireChangedEvent n ls) (zip (map old es) es) ?c1"
      using raiseIsShowing_changed [OF False, of "fireChangedEvent n ls" "zip (map old es) es"]
        raiseDefinitionChanged_deferred [OF Cons.prems, of n ls e "''isShowing''"
          "isShowing c e" "old e"]
      by simp
    also have "\<dots> = Returned ()
       (?c1\<lparr>changedEntities :=
            stageChangedAll (addedEntities ?c1) (filter (\<lambda>e. old e \<noteq> isShowing ?c1 e) es)
              (changedEntities ?c1),
          definitionChanged := definitionChanged ?c1 @
            map (\<lambda>e. \<lparr>sigEntity = e, sigProperty = ''isShowing'',
                       sigNew = isShowing ?c1 e, sigOld = old e\<rparr>)
                (filter (\<lambda>e. old e \<noteq> isShowing ?c1 e) es),
          refire := refire ?c1 \<or> (firing ?c1 \<and> filter (\<lambda>e. old e \<noteq> isShowing ?c1 e) es \<noteq> [])\<rparr>)"
      by (rule Cons.IH [OF q])
    finally show ?thesis using False unfolding i
      by (cases "firing c") simp_all
  qed
qed

lemma setShow_fires:
  assumes "v \<noteq> collectionShow c"
  shows "setShow (fireChangedEvent n ls) v c = fireChangedEvent n ls (showToggled v c)"
proof -
  let ?c2 = "(suspendEvents c)\<lparr>collectionShow := v\<rparr>"
  let ?es = "aaValues (entities (suspendEvents c))"
  have q: "firing ?c2 \<or> suspendCount ?c2 \<noteq> 0"
    by (simp add: suspendEvents_def)
  note r = raiseIsShowing_deferred [OF q, of n ls "isShowing (suspendEvents c)" ?es]
  have o: "isShowing (suspendEvents c) = isShowing c"
    by (rule ext) (simp add: isShowing_def suspendEvents_def)
  have w: "isShowing ?c2 = isShowing (c\<lparr>collectionShow := v\<rparr>)"
    by (rule ext) (simp add: isShowing_def suspendEvents_def)
  have g: "isShowingSignal v c
             = (\<lambda>e. \<lparr>sigEntity = e, sigProperty = ''isShowing'',
                       sigNew = isShowing (c\<lparr>collectionShow := v\<rparr>) e,
                       sigOld = isShowing c e\<rparr>)"
    by (rule ext) (simp add: isShowingSignal_def)
  let ?b = "refire c \<or> (firing c \<and> affectedBy v c \<noteq> [])"
  have e: "setShow (fireChangedEvent n ls) v c
             = fireChangedEvent n ls ((showToggled v c)\<lparr>refire := ?b\<rparr>)"
    unfolding setShow_toggle [OF assms] r
    by (simp add: resumeEvents_def showToggled_def affectedBy_def g suspendEvents_def o w)
       (simp add: isShowing_def suspendEvents_def)
  show ?thesis
  proof (cases "firing c")
    case True
    then have f: "firing ((showToggled v c)\<lparr>refire := ?b\<rparr>)" "firing (showToggled v c)"
      by (simp_all add: showToggled_def)
    show ?thesis unfolding e by (simp add: fire_reentrant f)
  next
    case False
    then have "(showToggled v c)\<lparr>refire := ?b\<rparr> = showToggled v c"
      by (simp add: showToggled_def)
    then show ?thesis unfolding e by simp
  qed
qed

lemma aaContains_aaSet: "aaContains k (aaSet k' v a) \<longleftrightarrow> k = k' \<or> aaContains k a"
  by (auto simp: aaSet_def aaRemove_def aaContains_iff map_of_eq_None_iff [symmetric]
      split: if_splits)

lemma stageChangedAll_contains:
  "aaContains k (stageChangedAll added es changed) \<longleftrightarrow>
     aaContains k changed \<or> (\<exists>e\<in>set es. entityId e = k \<and> \<not> aaContains k added)"
  by (induction es arbitrary: changed) (auto simp: aaContains_aaSet)

text \<open>
  C4, as the code has it. Assigning \<open>show\<close> its current value does nothing. Assigning
  a different value is the same as calling \<^verbatim>\<open>fireChangedEvent\<close> on the collection with
  the new flag, one \<open>isShowing\<close> signal per entity whose effective visibility differs
  before and after (carrying the new and the old value, in the order of the entities), and
  each such entity that is not staged as added staged as changed: in a suspended
  collection with no delivery in progress that collection is the result, and during a
  delivery it is the result with \<open>refire\<close> set. The added and removed staging arrays
  and the entity mapping are not written.
\<close>

theorem show_toggle_signals:
  "(v = collectionShow c \<longrightarrow> setShow (fireChangedEvent n ls) v c = Returned () c)
   \<and> (v \<noteq> collectionShow c \<longrightarrow>
        setShow (fireChangedEvent n ls) v c = fireChangedEvent n ls (showToggled v c))
   \<and> (v \<noteq> collectionShow c \<and> \<not> firing c \<and> suspendCount c \<noteq> 0 \<longrightarrow>
        setShow (fireChangedEvent n ls) v c = Returned () (showToggled v c))
   \<and> (v \<noteq> collectionShow c \<and> firing c \<longrightarrow>
        setShow (fireChangedEvent n ls) v c = Returned () ((showToggled v c)\<lparr>refire := True\<rparr>))
   \<and> definitionChanged (showToggled v c)
       = definitionChanged c @ map (isShowingSignal v c) (affectedBy v c)
   \<and> set (affectedBy v c)
       = {e \<in> set (aaValues (entities c)).
            isShowing c e \<noteq> isShowing (c\<lparr>collectionShow := v\<rparr>) e}
   \<and> addedEntities (showToggled v c) = addedEntities c
   \<and> removedEntities (showToggled v c) = removedEntities c
   \<and> entities (showToggled v c) = entities c
   \<and> (\<forall>k. aaContains k (changedEntities (showToggled v c)) \<longleftrightarrow>
          aaContains k (changedEntities c)
          \<or> (\<exists>e\<in>set (affectedBy v c). entityId e = k \<and> \<not> aaContains k (addedEntities c)))"
proof -
  have a: "v = collectionShow c \<Longrightarrow> setShow (fireChangedEvent n ls) v c = Returned () c"
    by (rule setShow_same)
  have b: "setShow (fireChangedEvent n ls) v c = fireChangedEvent n ls (showToggled v c)"
    if "v \<noteq> collectionShow c"
    using that by (rule setShow_fires)
  have d: "setShow (fireChangedEvent n ls) v c = Returned () (showToggled v c)"
    if "v \<noteq> collectionShow c" "\<not> firing c" "suspendCount c \<noteq> 0"
  proof -
    have "\<not> firing (showToggled v c)" "suspendCount (showToggled v c) \<noteq> 0"
      using that by (simp_all add: showToggled_def)
    then show ?thesis using b [OF that(1)] by (simp add: fire_suspended)
  qed
  have d': "setShow (fireChangedEvent n ls) v c = Returned () ((showToggled v c)\<lparr>refire := True\<rparr>)"
    if "v \<noteq> collectionShow c" "firing c"
  proof -
    have "firing (showToggled v c)" using that by (simp add: showToggled_def)
    then show ?thesis using b [OF that(1)] by (simp add: fire_reentrant)
  qed
  have e: "set (affectedBy v c)
       = {e \<in> set (aaValues (entities c)).
            isShowing c e \<noteq> isShowing (c\<lparr>collectionShow := v\<rparr>) e}"
    by (auto simp: affectedBy_def)
  have f: "aaContains k (changedEntities (showToggled v c)) \<longleftrightarrow>
          aaContains k (changedEntities c)
          \<or> (\<exists>e\<in>set (affectedBy v c). entityId e = k \<and> \<not> aaContains k (addedEntities c))"
    for k
    by (simp add: showToggled_def stageChangedAll_contains)
  have g: "definitionChanged (showToggled v c)
       = definitionChanged c @ map (isShowingSignal v c) (affectedBy v c)"
    "addedEntities (showToggled v c) = addedEntities c"
    "removedEntities (showToggled v c) = removedEntities c"
    "entities (showToggled v c) = entities c"
    by (simp_all add: showToggled_def)
  from a b d d' e f g show ?thesis by blast
qed

lemma affectedBy_holdingAB: "affectedBy False holdingAB = [entityA]"
  by (simp add: affectedBy_def holdingAB_def EntityCollection_def aaValues_def isShowing_def
      entityA_def entityB_def)

theorem show_toggle_signals_witness:
  "False \<noteq> collectionShow holdingAB \<and> \<not> firing holdingAB
   \<and> affectedBy False holdingAB = [entityA]
   \<and> definitionChanged (showToggled False holdingAB)
       = [\<lparr>sigEntity = entityA, sigProperty = ''isShowing'', sigNew = False, sigOld = True\<rparr>]
   \<and> setShow (fireChangedEvent (Suc 0) [idle]) False holdingAB
       = Returned ()
           (holdingAB\<lparr>collectionShow := False,
              collectionChanged :=
                [\<lparr>addedArray = [], removedArray = [], changedArray = [entityA]\<rparr>],
              definitionChanged :=
                [\<lparr>sigEntity = entityA, sigProperty = ''isShowing'',
                  sigNew = False, sigOld = True\<rparr>]\<rparr>)
   \<and> setShow (fireChangedEvent (Suc 0) [idle]) True holdingAB = Returned () holdingAB
   \<and> setShow (fireChangedEvent (Suc 0) [idle]) False (holdingAB\<lparr>firing := True\<rparr>)
       = Returned ()
           (holdingAB\<lparr>collectionShow := False,
              changedEntities := [(''a'', entityA)],
              firing := True, refire := True,
              definitionChanged :=
                [\<lparr>sigEntity = entityA, sigProperty = ''isShowing'',
                  sigNew = False, sigOld = True\<rparr>]\<rparr>)"
proof -
  have h: "False \<noteq> collectionShow holdingAB \<and> \<not> firing holdingAB"
    by (simp add: holdingAB_def EntityCollection_def)
  have h': "True = collectionShow holdingAB"
    by (simp add: holdingAB_def EntityCollection_def)
  have hf: "False \<noteq> collectionShow (holdingAB\<lparr>firing := True\<rparr>)
            \<and> firing (holdingAB\<lparr>firing := True\<rparr>)"
    by (simp add: holdingAB_def EntityCollection_def)
  note t = show_toggle_signals [of False holdingAB "Suc 0" "[idle]"]
  have s: "definitionChanged (showToggled False holdingAB)
       = [\<lparr>sigEntity = entityA, sigProperty = ''isShowing'', sigNew = False, sigOld = True\<rparr>]"
    using t affectedBy_holdingAB
    by (simp add: isShowingSignal_def isShowing_def holdingAB_def EntityCollection_def
        entityA_def)
  have "setShow (fireChangedEvent (Suc 0) [idle]) False holdingAB
          = fireChangedEvent (Suc 0) [idle] (showToggled False holdingAB)"
    using t h by blast
  also have "\<dots> = Returned ()
           (holdingAB\<lparr>collectionShow := False,
              collectionChanged :=
                [\<lparr>addedArray = [], removedArray = [], changedArray = [entityA]\<rparr>],
              definitionChanged :=
                [\<lparr>sigEntity = entityA, sigProperty = ''isShowing'',
                  sigNew = False, sigOld = True\<rparr>]\<rparr>)"
    by (simp add: showToggled_def affectedBy_holdingAB isShowingSignal_def)
       (simp add: fireChangedEvent.simps fireLoop.simps firePass_def Let_def idle_def
          holdingAB_def EntityCollection_def entityA_def isShowing_def
          aaContains_def aaSet_def aaRemove_def aaValues_def aaRemoveAll_def)
  finally have r: "setShow (fireChangedEvent (Suc 0) [idle]) False holdingAB
       = Returned ()
           (holdingAB\<lparr>collectionShow := False,
              collectionChanged :=
                [\<lparr>addedArray = [], removedArray = [], changedArray = [entityA]\<rparr>],
              definitionChanged :=
                [\<lparr>sigEntity = entityA, sigProperty = ''isShowing'',
                  sigNew = False, sigOld = True\<rparr>]\<rparr>)" .
  have u: "setShow (fireChangedEvent (Suc 0) [idle]) True holdingAB = Returned () holdingAB"
    using show_toggle_signals [of True holdingAB "Suc 0" "[idle]"] h' by blast
  have "setShow (fireChangedEvent (Suc 0) [idle]) False (holdingAB\<lparr>firing := True\<rparr>)
          = Returned () ((showToggled False (holdingAB\<lparr>firing := True\<rparr>))\<lparr>refire := True\<rparr>)"
    using show_toggle_signals [of False "holdingAB\<lparr>firing := True\<rparr>" "Suc 0" "[idle]"] hf
    by blast
  also have "(showToggled False (holdingAB\<lparr>firing := True\<rparr>))\<lparr>refire := True\<rparr>
      = holdingAB\<lparr>collectionShow := False,
              changedEntities := [(''a'', entityA)],
              firing := True, refire := True,
              definitionChanged :=
                [\<lparr>sigEntity = entityA, sigProperty = ''isShowing'',
                  sigNew = False, sigOld = True\<rparr>]\<rparr>"
    by (simp add: showToggled_def affectedBy_def isShowingSignal_def isShowing_def
        holdingAB_def EntityCollection_def entityA_def entityB_def
        aaContains_def aaSet_def aaRemove_def aaValues_def)
  finally have w: "setShow (fireChangedEvent (Suc 0) [idle]) False (holdingAB\<lparr>firing := True\<rparr>)
       = Returned ()
           (holdingAB\<lparr>collectionShow := False,
              changedEntities := [(''a'', entityA)],
              firing := True, refire := True,
              definitionChanged :=
                [\<lparr>sigEntity = entityA, sigProperty = ''isShowing'',
                  sigNew = False, sigOld = True\<rparr>]\<rparr>)" .
  from h affectedBy_holdingAB s r u w show ?thesis by blast
qed

text \<open>
  C4 as worded has the staging sets unaltered by the toggle. In a suspended
  collection that holds one visible entity and has nothing staged, toggling \<open>show\<close>
  leaves that entity staged as changed.
\<close>

theorem show_toggle_signals_counterexample:
  "changedEntities (holdingA\<lparr>suspendCount := 1\<rparr>) = []
   \<and> setShow (fireChangedEvent (Suc 0) []) False (holdingA\<lparr>suspendCount := 1\<rparr>)
       = Returned ()
           (holdingA\<lparr>suspendCount := 1, collectionShow := False,
              changedEntities := [(''a'', entityA)],
              definitionChanged :=
                [\<lparr>sigEntity = entityA, sigProperty = ''isShowing'',
                  sigNew = False, sigOld = True\<rparr>]\<rparr>)
   \<and> changedEntities
         (holdingA\<lparr>suspendCount := 1, collectionShow := False,
              changedEntities := [(''a'', entityA)],
              definitionChanged :=
                [\<lparr>sigEntity = entityA, sigProperty = ''isShowing'',
                  sigNew = False, sigOld = True\<rparr>]\<rparr>)
       \<noteq> changedEntities (holdingA\<lparr>suspendCount := 1\<rparr>)"
  by (simp add: setShow_def resumeEvents_def suspendEvents_def raiseDefinitionChanged_def
      onEntityDefinitionChanged_def Let_def fireChangedEvent.simps
      holdingA_def EntityCollection_def entityA_def isShowing_def
      aaContains_def aaSet_def aaRemove_def aaValues_def)


lemma availabilityLoop_fold:
  "availabilityLoop limits es (s, t) =
     (fold min (filter (\<lambda>x. x \<noteq> MINIMUM_VALUE limits) (map start (availabilities es))) s,
      fold max (filter (\<lambda>x. x \<noteq> MAXIMUM_VALUE limits) (map stop (availabilities es))) t)"
proof (induction es arbitrary: s t)
  case Nil
  show ?case by simp
next
  case (Cons e es)
  show ?case
  proof (cases "availability e")
    case None
    then show ?thesis using Cons.IH by simp
  next
    case (Some a)
    have m: "(if start a < s \<and> start a \<noteq> MINIMUM_VALUE limits then start a else s)
               = (if start a \<noteq> MINIMUM_VALUE limits then min (start a) s else s)"
      by (simp add: min_def)
    have x: "(if t < stop a \<and> stop a \<noteq> MAXIMUM_VALUE limits then stop a else t)
               = (if stop a \<noteq> MAXIMUM_VALUE limits then max (stop a) t else t)"
      by (simp add: max_def)
    show ?thesis using Some by (simp add: Cons.IH m x)
  qed
qed

lemma fold_min_below:
  fixes xs :: "int list"
  assumes "\<forall>x\<in>set xs. x < b"
  shows "fold min xs b = (if xs = [] then b else Min (set xs))"
proof (cases xs)
  case Nil
  then show ?thesis by simp
next
  case (Cons y ys)
  have "fold min xs b = Min (set (b # xs))"
    by (simp only: Min.set_eq_fold)
  also have "\<dots> = min b (Min (set xs))"
    using Cons by simp
  also have "Min (set xs) < b"
    using assms Cons by (simp add: Min_less_iff)
  then have "min b (Min (set xs)) = Min (set xs)" by simp
  finally show ?thesis using Cons by simp
qed

lemma fold_max_above:
  fixes xs :: "int list"
  assumes "\<forall>x\<in>set xs. b < x"
  shows "fold max xs b = (if xs = [] then b else Max (set xs))"
proof (cases xs)
  case Nil
  then show ?thesis by simp
next
  case (Cons y ys)
  have "fold max xs b = Max (set (b # xs))"
    by (simp only: Max.set_eq_fold)
  also have "\<dots> = max b (Max (set xs))"
    using Cons by simp
  also have "b < Max (set xs)"
    using assms Cons by (simp add: Max_gr_iff)
  then have "max b (Max (set xs)) = Max (set xs)" by simp
  finally show ?thesis using Cons by simp
qed

text \<open>
  C6, as the code has it. When no availability starts at the unbounded-future sentinel or
  later and none stops at the unbounded-past sentinel or earlier,
  \<^verbatim>\<open>computeAvailability\<close> is the interval from the least start that is not the
  unbounded-past sentinel to the greatest stop that is not the unbounded-future sentinel;
  where every start is the past sentinel the start of the result is that sentinel, and
  where every stop is the future sentinel the stop of the result is that sentinel.
\<close>

theorem computeAvailability_spans:
  assumes "\<forall>a\<in>set (availabilities (aaValues (entities c))).
             start a < MAXIMUM_VALUE limits \<and> MINIMUM_VALUE limits < stop a"
  shows "computeAvailability limits c = spanningAvailability limits c"
proof -
  let ?starts = "filter (\<lambda>t. t \<noteq> MINIMUM_VALUE limits)
                   (map start (availabilities (aaValues (entities c))))"
  let ?stops = "filter (\<lambda>t. t \<noteq> MAXIMUM_VALUE limits)
                   (map stop (availabilities (aaValues (entities c))))"
  have a: "\<forall>x\<in>set ?starts. x < MAXIMUM_VALUE limits" using assms by auto
  have b: "\<forall>x\<in>set ?stops. MINIMUM_VALUE limits < x" using assms by auto
  have s: "fold min ?starts (MAXIMUM_VALUE limits)
             = (if ?starts = [] then MAXIMUM_VALUE limits else Min (set ?starts))"
    by (rule fold_min_below [OF a])
  have t: "fold max ?stops (MINIMUM_VALUE limits)
             = (if ?stops = [] then MINIMUM_VALUE limits else Max (set ?stops))"
    by (rule fold_max_above [OF b])
  have s': "?starts \<noteq> [] \<Longrightarrow> Min (set ?starts) \<noteq> MAXIMUM_VALUE limits"
  proof -
    assume ne: "?starts \<noteq> []"
    have "set ?starts \<noteq> {}" using ne unfolding set_empty .
    then have "Min (set ?starts) \<in> set ?starts" by (rule Min_in [OF finite_set])
    with a show ?thesis by fastforce
  qed
  have t': "?stops \<noteq> [] \<Longrightarrow> Max (set ?stops) \<noteq> MINIMUM_VALUE limits"
  proof -
    assume ne: "?stops \<noteq> []"
    have "set ?stops \<noteq> {}" using ne unfolding set_empty .
    then have "Max (set ?stops) \<in> set ?stops" by (rule Max_in [OF finite_set])
    with b show ?thesis by fastforce
  qed
  have "computeAvailability limits c =
      \<lparr>start = (if ?starts = [] then MINIMUM_VALUE limits else Min (set ?starts)),
       stop = (if ?stops = [] then MAXIMUM_VALUE limits else Max (set ?stops))\<rparr>"
    unfolding computeAvailability_def availabilityLoop_fold s t
    using s' t' by (cases "?starts = []"; cases "?stops = []") auto
  then show ?thesis by (simp add: spanningAvailability_def Let_def)
qed

lemma holdingTimed_availabilities:
  "availabilities (aaValues (entities holdingTimed))
     = [\<lparr>start = 0, stop = 5\<rparr>, \<lparr>start = 3, stop = 100\<rparr>, \<lparr>start = 4, stop = 9\<rparr>]"
  by (simp add: holdingTimed_def EntityCollection_def aaValues_def timed_def entityA_def)

theorem computeAvailability_spans_witness:
  "availabilities (aaValues (entities holdingTimed))
     = [\<lparr>start = 0, stop = 5\<rparr>, \<lparr>start = 3, stop = 100\<rparr>, \<lparr>start = 4, stop = 9\<rparr>]
   \<and> spanningAvailability sampleIso holdingTimed = \<lparr>start = 3, stop = 9\<rparr>
   \<and> computeAvailability sampleIso holdingTimed = \<lparr>start = 3, stop = 9\<rparr>
   \<and> computeAvailability sampleIso holdingA = \<lparr>start = 0, stop = 100\<rparr>"
proof -
  have h: "\<forall>a\<in>set (availabilities (aaValues (entities holdingTimed))).
      start a < MAXIMUM_VALUE sampleIso \<and> MINIMUM_VALUE sampleIso < stop a"
    by (simp add: holdingTimed_availabilities sampleIso_def)
  have s: "spanningAvailability sampleIso holdingTimed = \<lparr>start = 3, stop = 9\<rparr>"
    by (simp add: spanningAvailability_def holdingTimed_availabilities sampleIso_def)
  have h0: "\<forall>a\<in>set (availabilities (aaValues (entities holdingA))).
      start a < MAXIMUM_VALUE sampleIso \<and> MINIMUM_VALUE sampleIso < stop a"
    by (simp add: holdingA_def EntityCollection_def aaValues_def entityA_def)
  have s0: "spanningAvailability sampleIso holdingA = \<lparr>start = 0, stop = 100\<rparr>"
    by (simp add: spanningAvailability_def holdingA_def EntityCollection_def aaValues_def
        entityA_def sampleIso_def)
  from holdingTimed_availabilities s computeAvailability_spans [OF h] s0
    computeAvailability_spans [OF h0]
  show ?thesis by simp
qed

text \<open>
  C6 as worded takes every start other than the unbounded-past sentinel into the
  aggregate start. An entity available only at the instant of the unbounded-future
  sentinel has such a start, and the code returns the fully unbounded interval for it.
\<close>

theorem computeAvailability_spans_counterexample:
  "availabilities (aaValues (entities holdingLate)) = [\<lparr>start = 100, stop = 100\<rparr>]
   \<and> computeAvailability sampleIso holdingLate = \<lparr>start = 0, stop = 100\<rparr>
   \<and> spanningAvailability sampleIso holdingLate = \<lparr>start = 100, stop = 100\<rparr>
   \<and> computeAvailability sampleIso holdingLate \<noteq> spanningAvailability sampleIso holdingLate"
  by (simp add: computeAvailability_def spanningAvailability_def holdingLate_def
      EntityCollection_def aaValues_def timed_def sampleIso_def)

section \<open>ModelExperimentalNode: proofs\<close>

lemma configurePipeline_fields:
  "instancingNodeTransform (configurePipeline n) = instancingNodeTransform n"
  "node (configurePipeline n) = node n"
  "transform (configurePipeline n) = transform n"
  "transformToRoot (configurePipeline n) = transformToRoot n"
  "sceneGraph (configurePipeline n) = sceneGraph n"
  "transformDirty (configurePipeline n) = transformDirty n"
  by (simp_all add: configurePipeline_def Let_def)

lemma constructor_derived:
  "ModelExperimentalNode ops options = Inr n \<Longrightarrow> instancingNodeTransform n = instancingDerived ops n"
  by (auto simp: ModelExperimentalNode_def instancingDerived_def configurePipeline_fields
      split: option.splits)

lemma setTransform_derived:
  "instancingNodeTransform n = instancingDerived ops n \<Longrightarrow>
   instancingNodeTransform (setTransform ops v n) = instancingDerived ops (setTransform ops v n)"
  by (simp add: setTransform_def instancingDerived_def Let_def)

lemma setTransforms_derived:
  "instancingNodeTransform n = instancingDerived ops n \<Longrightarrow>
   instancingNodeTransform (setTransforms ops vs n) = instancingDerived ops (setTransforms ops vs n)"
  by (induction vs arbitrary: n) (simp_all add: setTransform_derived)

lemma setTransform_frame:
  "node (setTransform ops v n) = node n"
  "transformToRoot (setTransform ops v n) = transformToRoot n"
  "sceneGraph (setTransform ops v n) = sceneGraph n"
  by (simp_all add: setTransform_def Let_def)

lemma setTransforms_frame:
  "node (setTransforms ops vs n) = node n \<and>
   transformToRoot (setTransforms ops vs n) = transformToRoot n \<and>
   sceneGraph (setTransforms ops vs n) = sceneGraph n"
  by (induction vs arbitrary: n) (simp_all add: setTransform_frame)

text \<open>
  C7. For every node built by the constructor and then assigned any run of local
  transforms: the instancing transform is defined exactly when the node components
  declare \<^verbatim>\<open>instances\<close>, and then it is the axis-corrected product of
  \<open>transformToRoot\<close> and the local transform that the node currently stores; the
  node components and \<open>transformToRoot\<close> are those given at construction.
\<close>

theorem instancing_transform_invariant:
  assumes "ModelExperimentalNode ops options = Inr n0"
    and "n = setTransforms ops vs n0"
  shows "(instancingNodeTransform n \<noteq> None \<longleftrightarrow> instances (node n) \<noteq> None)
     \<and> (instances (node n) \<noteq> None \<longrightarrow>
          instancingNodeTransform n =
            Some (correctModelMatrix ops (multiply ops (transformToRoot n) (transform n))
                    (upAxis (components (sceneGraph n))) (forwardAxis (components (sceneGraph n)))))
     \<and> optNode options = Some (node n)
     \<and> optTransformToRoot options = Some (transformToRoot n)"
proof -
  have d: "instancingNodeTransform n = instancingDerived ops n"
    using assms constructor_derived setTransforms_derived by blast
  have f: "node n = node n0" "transformToRoot n = transformToRoot n0"
    using assms(2) setTransforms_frame [of ops vs n0] by simp_all
  have o: "optNode options = Some (node n0) \<and> optTransformToRoot options = Some (transformToRoot n0)"
    using assms(1)
    by (auto simp: ModelExperimentalNode_def configurePipeline_fields split: option.splits)
  from d f o show ?thesis by (simp add: instancingDerived_def)
qed

text \<open>
  C8. Assigning a value that \<^verbatim>\<open>Matrix4.equals\<close> holds equal to the stored transform
  returns the node as it is: dirty flag, stored transform and instancing transform are
  unchanged. For a value equal to itself (every matrix without a NaN entry), writing it a
  second time changes nothing, also after a consumer has cleared the dirty flag: there is
  no second dirty transition.
\<close>

theorem same_value_write_is_noop:
  "(equals ops (transform n) v \<longrightarrow>
      setTransform ops v n = n
      \<and> transformDirty (setTransform ops v n) = transformDirty n
      \<and> transform (setTransform ops v n) = transform n
      \<and> instancingNodeTransform (setTransform ops v n) = instancingNodeTransform n)
   \<and> (equals ops v v \<longrightarrow>
        setTransform ops v (setTransform ops v n) = setTransform ops v n
        \<and> setTransform ops v ((setTransform ops v n)\<lparr>transformDirty := False\<rparr>)
            = (setTransform ops v n)\<lparr>transformDirty := False\<rparr>)"
  by (simp add: setTransform_def Let_def)

lemma sample_constructed:
  "ModelExperimentalNode intOps (sampleOptions b) = Inr (sampleNode b)"
  by (simp add: ModelExperimentalNode_def sampleOptions_def sampleNode_def intOps_def
      configurePipeline_def)

theorem instancing_transform_invariant_witness:
  "ModelExperimentalNode intOps (sampleOptions True) = Inr (sampleNode True)
   \<and> instancingNodeTransform (setTransforms intOps [5, 5, 7] (sampleNode True)) = Some 211
   \<and> transform (setTransforms intOps [5, 5, 7] (sampleNode True)) = 7
   \<and> instancingNodeTransform (setTransforms intOps [5, 5, 7] (sampleNode False)) = None"
proof -
  have t: "transform (setTransforms intOps [5, 5, 7] (sampleNode b)) = 7" for b
    by (simp add: setTransform_def sampleNode_def intOps_def)
  have i: "instances (node (setTransforms intOps [5, 5, 7] (sampleNode b)))
             = (if b then Some () else None)" for b
    using setTransforms_frame [of intOps "[5, 5, 7]" "sampleNode b"]
    by (simp add: sampleNode_def)
  have r: "transformToRoot (setTransforms intOps [5, 5, 7] (sampleNode b)) = 3
           \<and> sceneGraph (setTransforms intOps [5, 5, 7] (sampleNode b))
               = \<lparr>components = \<lparr>upAxis = 10, forwardAxis = 1\<rparr>\<rparr>" for b
    using setTransforms_frame [of intOps "[5, 5, 7]" "sampleNode b"]
    by (simp add: sampleNode_def)
  have a: "instancingNodeTransform (setTransforms intOps [5, 5, 7] (sampleNode True)) = Some 211"
    using instancing_transform_invariant [OF sample_constructed [of True] refl, of "[5, 5, 7]"]
      t [of True] i [of True] r [of True]
    by (simp add: intOps_def)
  have b: "instancingNodeTransform (setTransforms intOps [5, 5, 7] (sampleNode False)) = None"
    using instancing_transform_invariant [OF sample_constructed [of False] refl, of "[5, 5, 7]"]
      i [of False]
    by simp
  from a b t [of True] sample_constructed [of True] show ?thesis by simp
qed

theorem same_value_write_is_noop_witness:
  "equals intOps (transform (sampleNode True)) 2
   \<and> setTransform intOps 2 (sampleNode True) = sampleNode True
   \<and> equals intOps 5 5
   \<and> transformDirty (setTransform intOps 5 (sampleNode True))
   \<and> setTransform intOps 5 ((setTransform intOps 5 (sampleNode True))\<lparr>transformDirty := False\<rparr>)
       = (setTransform intOps 5 (sampleNode True))\<lparr>transformDirty := False\<rparr>"
proof -
  have e1: "equals intOps (transform (sampleNode True)) 2"
    by (simp add: intOps_def sampleNode_def)
  have e2: "equals intOps 5 5"
    by (simp add: intOps_def)
  have d: "transformDirty (setTransform intOps 5 (sampleNode True))"
    by (simp add: setTransform_def intOps_def sampleNode_def)
  from e1 e2 d
    same_value_write_is_noop [of intOps "sampleNode True" 2]
    same_value_write_is_noop [of intOps "sampleNode True" 5]
  show ?thesis by simp
qed

section \<open>Label: proofs\<close>

lemma distinct_count_list_le_1: "distinct xs \<Longrightarrow> count_list xs x \<le> 1"
  by (induction xs) (auto simp: count_list_0_iff)

lemma markDirty_isDirty:
  "isDirty (markDirty m s) l = (isDirty s l \<or> l = (case m of Rebind k \<Rightarrow> k | Reposition k \<Rightarrow> k))"
  by (cases m) (auto simp: isDirty_def rebindAllGlyphs_def repositionAllGlyphs_def Let_def)

lemma markDirty_list:
  "labelsToUpdate (markDirty m s) =
     (let k = (case m of Rebind k \<Rightarrow> k | Reposition k \<Rightarrow> k)
      in if isDirty s k then labelsToUpdate s else labelsToUpdate s @ [k])"
  by (cases m) (auto simp: isDirty_def rebindAllGlyphs_def repositionAllGlyphs_def Let_def)

lemma markDirty_pendingOnce:
  assumes "pendingOnce s"
  shows "pendingOnce (markDirty m s)"
proof -
  let ?k = "case m of Rebind k \<Rightarrow> k | Reposition k \<Rightarrow> k"
  have notin: "\<not> isDirty s ?k \<Longrightarrow> ?k \<notin> set (labelsToUpdate s)"
    using assms by (auto simp: pendingOnce_def list_all_iff)
  show ?thesis
    using assms notin
    by (auto simp: pendingOnce_def list_all_iff markDirty_list markDirty_isDirty Let_def)
qed

lemma markAll_pendingOnce:
  "pendingOnce s \<Longrightarrow> pendingOnce (markAll ms s)"
  by (induction ms arbitrary: s) (simp_all add: markDirty_pendingOnce)

text \<open>
  C10. A label is pushed onto its collection's \<^verbatim>\<open>_labelsToUpdate\<close> only when both of
  its dirty flags are clear: a call on a label with a flag already set sets the requested
  flag and leaves the list as it is, a call on a clean label appends the label once, and
  in any run of dirty-marking calls that starts from a consistent pending list every label
  occurs at most once in the list.
\<close>

theorem label_pushed_once_per_dirty_cycle:
  "(isDirty s l \<longrightarrow>
      labelsToUpdate (rebindAllGlyphs l s) = labelsToUpdate s \<and>
      labelsToUpdate (repositionAllGlyphs l s) = labelsToUpdate s)
   \<and> (\<not> isDirty s l \<longrightarrow>
      labelsToUpdate (rebindAllGlyphs l s) = labelsToUpdate s @ [l] \<and>
      labelsToUpdate (repositionAllGlyphs l s) = labelsToUpdate s @ [l])
   \<and> rebindAllGlyphsFlag (labels (rebindAllGlyphs l s) l)
   \<and> repositionAllGlyphsFlag (labels (repositionAllGlyphs l s) l)
   \<and> (pendingOnce s \<longrightarrow> count_list (labelsToUpdate (markAll ms s)) l \<le> 1)"
proof -
  have a: "labelsToUpdate (rebindAllGlyphs l s) =
             (if isDirty s l then labelsToUpdate s else labelsToUpdate s @ [l])"
    using markDirty_list [of "Rebind l" s] by (simp add: Let_def)
  have b: "labelsToUpdate (repositionAllGlyphs l s) =
             (if isDirty s l then labelsToUpdate s else labelsToUpdate s @ [l])"
    using markDirty_list [of "Reposition l" s] by (simp add: Let_def)
  have c: "rebindAllGlyphsFlag (labels (rebindAllGlyphs l s) l)"
    by (simp add: rebindAllGlyphs_def Let_def)
  have d: "repositionAllGlyphsFlag (labels (repositionAllGlyphs l s) l)"
    by (simp add: repositionAllGlyphs_def Let_def)
  have e: "count_list (labelsToUpdate (markAll ms s)) l \<le> 1" if "pendingOnce s"
  proof -
    have "distinct (labelsToUpdate (markAll ms s))"
      using markAll_pendingOnce [OF that] by (simp add: pendingOnce_def)
    then show ?thesis by (rule distinct_count_list_le_1)
  qed
  from a b c d e show ?thesis by simp
qed

theorem label_pushed_once_per_dirty_cycle_witness:
  "\<not> isDirty freshCollection 3
   \<and> pendingOnce freshCollection
   \<and> labelsToUpdate (rebindAllGlyphs 3 freshCollection) = [3]
   \<and> isDirty (rebindAllGlyphs 3 freshCollection) 3
   \<and> labelsToUpdate (repositionAllGlyphs 3 (rebindAllGlyphs 3 freshCollection)) = [3]
   \<and> count_list (labelsToUpdate
         (markAll [Rebind 3, Reposition 3, Rebind 5, Rebind 3] freshCollection)) 3 \<le> 1"
proof -
  have clean: "\<not> isDirty freshCollection 3"
    by (simp add: isDirty_def freshCollection_def)
  have ok: "pendingOnce freshCollection"
    by (simp add: pendingOnce_def freshCollection_def)
  have dirty: "isDirty (rebindAllGlyphs 3 freshCollection) 3"
    by (simp add: isDirty_def rebindAllGlyphs_def Let_def)
  have first: "labelsToUpdate (rebindAllGlyphs 3 freshCollection) = [3]"
    using clean
      label_pushed_once_per_dirty_cycle [of freshCollection 3 "[Rebind 3, Reposition 3, Rebind 5, Rebind 3]"]
    by (simp add: freshCollection_def)
  have second:
    "labelsToUpdate (repositionAllGlyphs 3 (rebindAllGlyphs 3 freshCollection)) = [3]"
    using dirty first
      label_pushed_once_per_dirty_cycle [of "rebindAllGlyphs 3 freshCollection" 3 "[]"]
    by simp
  have run: "count_list (labelsToUpdate
         (markAll [Rebind 3, Reposition 3, Rebind 5, Rebind 3] freshCollection)) 3 \<le> 1"
    using ok
      label_pushed_once_per_dirty_cycle [of freshCollection 3 "[Rebind 3, Reposition 3, Rebind 5, Rebind 3]"]
    by simp
  from clean ok dirty first second run show ?thesis by simp
qed

end
